theory Spec2Isabelle
  imports Main
begin

section \<open>JavaScript values crossing the bridge\<close>

text \<open>
  The values that \<^verbatim>\<open>JSON.stringify\<close> can represent and \<^verbatim>\<open>JSON.parse\<close>
  can return: null, booleans, numbers, strings, arrays and objects. The type of numbers
  is a parameter (no function of the bridge inspects a number). An object is the list
  of its own enumerable properties in insertion order; property lookup is \<open>map_of\<close>.
\<close>

datatype 'n json =
    JNull
  | JBool bool
  | JNum 'n
  | JStr string
  | JArr "'n json list"
  | JObj "(string \<times> 'n json) list"

text \<open>What the built-ins \<^verbatim>\<open>JSON.parse\<close> and \<^verbatim>\<open>JSON.stringify\<close> throw.\<close>

datatype js_error = SyntaxError | TypeError

section \<open>MessageCodec (src/MessageCodec.ts, rn-bridge/index.js)\<close>

text \<open>
  \<^verbatim>\<open>MessageCodecError\<close>, one constructor per \<^verbatim>\<open>throw\<close> of the codec:
  \<^item> \<open>EmptyEventName\<close>: "Event name must be a non-empty string";
  \<^item> \<open>SerializationFailure e\<close>: "Failed to serialize message for event ...", wrapping \<open>e\<close>;
  \<^item> \<open>NotAString\<close>: "Message must be a string";
  \<^item> \<open>ParseFailure e\<close>: "Failed to deserialize message", wrapping \<open>e\<close>;
  \<^item> \<open>NotAnObject\<close>: "Invalid message format: expected object";
  \<^item> \<open>MissingFields\<close>: "... must contain 'event' and 'payload' properties";
  \<^item> \<open>EventNotString\<close>: "... event must be a string";
  \<^item> \<open>PayloadNotArray\<close>: "... payload must be an array".
\<close>

datatype MessageCodecError =
    EmptyEventName
  | SerializationFailure js_error
  | NotAString
  | ParseFailure js_error
  | NotAnObject
  | MissingFields
  | EventNotString
  | PayloadNotArray

record 'n DeserializedMessage =
  event :: string
  payload :: "'n json list"

text \<open>
  \<^verbatim>\<open>serialize(event, ...payload)\<close>. The event is whatever value the caller passed
  (the function tests \<^verbatim>\<open>typeof event\<close> at run time); \<open>stringify\<close> is
  \<^verbatim>\<open>JSON.stringify\<close>, \<open>Inl\<close> what it throws.
\<close>

definition serialize ::
  "('n json \<Rightarrow> js_error + string) \<Rightarrow> 'n json \<Rightarrow> 'n json list \<Rightarrow> MessageCodecError + string"
where
  "serialize stringify ev pl =
     (case ev of
        JStr e \<Rightarrow>
          if length e = 0 then Inl EmptyEventName
          else (case stringify (JObj [(''event'', JStr e), (''payload'', JArr pl)]) of
                  Inl err \<Rightarrow> Inl (SerializationFailure err)
                | Inr text \<Rightarrow> Inr text)
      | _ \<Rightarrow> Inl EmptyEventName)"

text \<open>
  \<^verbatim>\<open>"event" in v\<close> and \<^verbatim>\<open>"payload" in v\<close> for a value that passed the
  object test: an object has the property when it is one of its own (neither name is a
  property of \<^verbatim>\<open>Object.prototype\<close>), an array has neither.
\<close>

fun has_property :: "string \<Rightarrow> 'n json \<Rightarrow> bool" where
  "has_property k (JObj kvs) = (k \<in> fst ` set kvs)"
| "has_property k _ = False"

text \<open>Property read \<^verbatim>\<open>v[k]\<close>; \<open>None\<close> is \<^verbatim>\<open>undefined\<close>.\<close>

fun get_property :: "string \<Rightarrow> 'n json \<Rightarrow> 'n json option" where
  "get_property k (JObj kvs) = map_of kvs k"
| "get_property k _ = None"

text \<open>
  \<^verbatim>\<open>!v || typeof v !== "object"\<close>: true of null, booleans, numbers and strings,
  false of arrays and objects.
\<close>

fun not_an_object :: "'n json \<Rightarrow> bool" where
  "not_an_object (JArr _) = False"
| "not_an_object (JObj _) = False"
| "not_an_object _ = True"

text \<open>
  \<^verbatim>\<open>deserialize(message)\<close>. The message is whatever value the caller passed;
  \<open>parse\<close> is \<^verbatim>\<open>JSON.parse\<close>. The \<^verbatim>\<open>catch\<close> rethrows a
  \<^verbatim>\<open>MessageCodecError\<close> and wraps anything else, which only the parser throws.
\<close>

definition deserialize ::
  "(string \<Rightarrow> js_error + 'n json) \<Rightarrow> 'n json \<Rightarrow> MessageCodecError + 'n DeserializedMessage"
where
  "deserialize parse message =
     (case message of
        JStr text \<Rightarrow>
          (case parse text of
             Inl err \<Rightarrow> Inl (ParseFailure err)
           | Inr deserializedMessage \<Rightarrow>
               if not_an_object deserializedMessage then Inl NotAnObject
               else if \<not> has_property ''event'' deserializedMessage
                       \<or> \<not> has_property ''payload'' deserializedMessage
               then Inl MissingFields
               else (case get_property ''event'' deserializedMessage of
                       Some (JStr e) \<Rightarrow>
                         (case get_property ''payload'' deserializedMessage of
                            Some (JArr p) \<Rightarrow> Inr \<lparr>event = e, payload = p\<rparr>
                          | _ \<Rightarrow> Inl PayloadNotArray)
                     | _ \<Rightarrow> Inl EventNotString))
      | _ \<Rightarrow> Inl NotAString)"

section \<open>SystemEventLock (rn-bridge/index.js)\<close>

text \<open>
  The lock object. Its callback acts on the world outside the lock (\<open>'w\<close>), so every
  method maps a pair of the lock and the world to the pair after the call.
\<close>

record 'w SystemEventLock =
  locksAcquired :: int
  callback :: "'w \<Rightarrow> 'w"
  hasReleased :: bool

definition checkRelease :: "'w SystemEventLock \<times> 'w \<Rightarrow> 'w SystemEventLock \<times> 'w" where
  "checkRelease lw =
     (case lw of (l, w) \<Rightarrow>
        if locksAcquired l \<le> 0 then (l\<lparr>hasReleased := True\<rparr>, callback l w) else (l, w))"

definition new_SystemEventLock ::
  "('w \<Rightarrow> 'w) \<Rightarrow> int \<Rightarrow> 'w \<Rightarrow> 'w SystemEventLock \<times> 'w" where
  "new_SystemEventLock cb startingLocks w =
     checkRelease (\<lparr>locksAcquired = startingLocks, callback = cb, hasReleased = False\<rparr>, w)"

definition release :: "'w SystemEventLock \<times> 'w \<Rightarrow> 'w SystemEventLock \<times> 'w" where
  "release lw =
     (case lw of (l, w) \<Rightarrow>
        if hasReleased l then (l, w)
        else checkRelease (l\<lparr>locksAcquired := locksAcquired l - 1\<rparr>, w))"

section \<open>String methods of JavaScript used by the bridge\<close>

text \<open>\<^verbatim>\<open>s.startsWith(p)\<close>.\<close>

definition startsWith :: "string \<Rightarrow> string \<Rightarrow> bool" where
  "startsWith s p = (take (length p) s = p)"

text \<open>
  \<^verbatim>\<open>s.split(sep)\<close> for a separator of one character: the segments between the
  occurrences of the separator, so one more segment than occurrences.
\<close>

fun js_split :: "char \<Rightarrow> string \<Rightarrow> string list" where
  "js_split sep [] = [[]]"
| "js_split sep (c # cs) =
     (if c = sep then [] # js_split sep cs
      else (case js_split sep cs of
              [] \<Rightarrow> [[c]]
            | w # ws \<Rightarrow> (c # w) # ws))"

section \<open>The embedded side: channels of rn-bridge/index.js\<close>

definition EVENT_CHANNEL :: string where
  "EVENT_CHANNEL = ''_EVENTS_''"

definition SYSTEM_CHANNEL :: string where
  "SYSTEM_CHANNEL = ''_SYSTEM_''"

text \<open>
  An argument passed to a listener: a decoded payload value, a reference to a
  \<^verbatim>\<open>SystemEventLock\<close> (its index in the heap of locks), or a listener function.
\<close>

datatype 'n arg = Value "'n json" | LockHandle nat | ListenerRef nat

text \<open>One call of a listener by \<^verbatim>\<open>emitLocal\<close>.\<close>

record 'n invocation =
  inv_channel :: string
  inv_listener :: nat
  inv_event :: string
  inv_args :: "'n arg list"

text \<open>
  A channel object: its class (both extend \<^verbatim>\<open>ChannelSuper\<close>), its name and the
  listeners of its \<^verbatim>\<open>EventEmitter\<close>, as (event, listener) in registration order.
\<close>

datatype channel_class = SystemChannel | EventChannel

record channel =
  cls :: channel_class
  name :: string
  listeners :: "(string \<times> nat) list"

text \<open>
  The closures handed to \<^verbatim>\<open>setImmediate\<close>: the one of
  \<^verbatim>\<open>ChannelSuper.emitWrapper\<close> (and of the \<^verbatim>\<open>else\<close> branch of
  \<^verbatim>\<open>SystemChannel.emitWrapper\<close>), and the one of the pause branch. A closure holds
  its channel object; each channel object is registered once under its name, so the name
  stands for it.
\<close>

datatype 'n task =
    EmitLocalTask string string "'n arg list"
  | PauseTask string string

type_synonym outbox = "(string \<times> string) list"

text \<open>
  The state of the embedded side: the registry \<^verbatim>\<open>channels\<close>, the queue of
  \<^verbatim>\<open>setImmediate\<close> (first in, first out), the calls of
  \<^verbatim>\<open>NativeBridge.sendMessage\<close> as (channel, text), the calls of listeners, the
  locks created so far, the lines of \<^verbatim>\<open>console.error\<close>, and the exceptions
  that nothing caught, each as the name of the channel whose \<^verbatim>\<open>emit\<close> threw it.
\<close>

record 'n node_state =
  channels :: "string \<rightharpoonup> channel"
  immediates :: "'n task list"
  sent :: outbox
  invoked :: "'n invocation list"
  heap :: "outbox SystemEventLock list"
  console_errors :: "string list"
  uncaught :: "string list"

definition listenerCount :: "channel \<Rightarrow> string \<Rightarrow> nat" where
  "listenerCount ch type = length (filter (\<lambda>r. fst r = type) (listeners ch))"

text \<open>
  The emitter of Node.js treats the event "error" apart: \<^verbatim>\<open>emit("error", ...)\<close> on
  an emitter with no listener of "error" throws \<^verbatim>\<open>ERR_UNHANDLED_ERROR\<close> (no
  argument the bridge passes is an \<^verbatim>\<open>Error\<close> object).
\<close>

definition unhandled_error :: "channel \<Rightarrow> string \<Rightarrow> bool" where
  "unhandled_error ch type = (type = ''error'' \<and> listenerCount ch ''error'' = 0)"

text \<open>
  \<^verbatim>\<open>emitLocal(type, ...msg)\<close>, the emitter's \<^verbatim>\<open>emit\<close>: the listeners of the
  event are called in registration order with the arguments. What a listener then does
  (calling \<^verbatim>\<open>release()\<close>, posting) is a later operation on the state. For an
  unhandled "error" nothing is called and the exception is thrown; every call of
  \<^verbatim>\<open>emitLocal\<close> in the module stands in a closure of \<^verbatim>\<open>setImmediate\<close> with no
  \<^verbatim>\<open>try\<close> around it, so the exception is uncaught.
\<close>

definition emitLocal :: "string \<Rightarrow> string \<Rightarrow> 'n arg list \<Rightarrow> 'n node_state \<Rightarrow> 'n node_state" where
  "emitLocal c type msg s =
     (case channels s c of
        None \<Rightarrow> s
      | Some ch \<Rightarrow>
          if unhandled_error ch type then s\<lparr>uncaught := uncaught s @ [c]\<rparr>
          else
            s\<lparr>invoked := invoked s @
                 map (\<lambda>r. \<lparr>inv_channel = c, inv_listener = snd r, inv_event = type, inv_args = msg\<rparr>)
                   (filter (\<lambda>r. fst r = type) (listeners ch))\<rparr>)"

text \<open>\<^verbatim>\<open>ChannelSuper.emitWrapper(type, ...msg)\<close>.\<close>

definition emitWrapper :: "channel \<Rightarrow> string \<Rightarrow> 'n arg list \<Rightarrow> 'n node_state \<Rightarrow> 'n node_state" where
  "emitWrapper ch type msg s = s\<lparr>immediates := immediates s @ [EmitLocalTask (name ch) type msg]\<rparr>"

text \<open>\<^verbatim>\<open>SystemChannel.emitWrapper(type)\<close>.\<close>

definition SystemChannel_emitWrapper :: "channel \<Rightarrow> string \<Rightarrow> 'n node_state \<Rightarrow> 'n node_state" where
  "SystemChannel_emitWrapper ch type s =
     (if startsWith type ''pause''
      then s\<lparr>immediates := immediates s @ [PauseTask (name ch) type]\<rparr>
      else s\<lparr>immediates := immediates s @ [EmitLocalTask (name ch) type []]\<rparr>)"

text \<open>The release message computed at the head of the pause closure.\<close>

definition releaseMessage :: "string \<Rightarrow> string" where
  "releaseMessage type =
     (let eventArguments = js_split CHR ''|'' type in
      if length eventArguments \<ge> 2
      then ''release-pause-event'' @ ''|'' @ eventArguments ! 1
      else ''release-pause-event'')"

text \<open>
  The body of the pause closure: the lock is built with a callback that sends the
  release message on the channel and with the number of listeners of "pause" at that
  moment, then "pause" is emitted with the lock.
\<close>

definition pause_closure :: "string \<Rightarrow> string \<Rightarrow> 'n node_state \<Rightarrow> 'n node_state" where
  "pause_closure c type s =
     (case channels s c of
        None \<Rightarrow> s
      | Some ch \<Rightarrow>
          (case new_SystemEventLock (\<lambda>out. out @ [(name ch, releaseMessage type)])
                  (int (listenerCount ch ''pause'')) (sent s) of
             (eventLock, out) \<Rightarrow>
               emitLocal c ''pause'' [LockHandle (length (heap s))]
                 (s\<lparr>heap := heap s @ [eventLock], sent := out\<rparr>)))"

fun run_task :: "'n task \<Rightarrow> 'n node_state \<Rightarrow> 'n node_state" where
  "run_task (EmitLocalTask c type msg) s = emitLocal c type msg s"
| "run_task (PauseTask c type) s = pause_closure c type s"

text \<open>
  One turn of the immediate queue: the oldest closure runs. An uncaught exception ends
  the process of Node.js (the bridge installs no handler of
  \<^verbatim>\<open>uncaughtException\<close>), so no closure runs after one.
\<close>

definition run_immediate :: "'n node_state \<Rightarrow> 'n node_state" where
  "run_immediate s =
     (if uncaught s \<noteq> [] then s
      else (case immediates s of
              [] \<Rightarrow> s
            | t # ts \<Rightarrow> run_task t (s\<lparr>immediates := ts\<rparr>)))"

text \<open>
  \<^verbatim>\<open>processData(data)\<close> of the two classes. \<open>Inl\<close> is the exception leaving the
  method: \<^verbatim>\<open>EventChannel.processData\<close> calls \<^verbatim>\<open>deserialize\<close> with no
  \<^verbatim>\<open>try\<close> around it.
\<close>

definition processData ::
  "(string \<Rightarrow> js_error + 'n json) \<Rightarrow> channel \<Rightarrow> string \<Rightarrow> 'n node_state
     \<Rightarrow> MessageCodecError + 'n node_state" where
  "processData parse ch data s =
     (case cls ch of
        EventChannel \<Rightarrow>
          (case deserialize parse (JStr data) of
             Inl err \<Rightarrow> Inl err
           | Inr envelope \<Rightarrow> Inr (emitWrapper ch (event envelope) (map Value (payload envelope)) s))
      | SystemChannel \<Rightarrow> Inr (SystemChannel_emitWrapper ch data s))"

text \<open>\<^verbatim>\<open>bridgeListener(channelName, data)\<close>, called by the native code.\<close>

definition bridgeListener ::
  "(string \<Rightarrow> js_error + 'n json) \<Rightarrow> string \<Rightarrow> string \<Rightarrow> 'n node_state
     \<Rightarrow> MessageCodecError + 'n node_state" where
  "bridgeListener parse channelName data s =
     (case channels s channelName of
        Some ch \<Rightarrow> processData parse ch data s
      | None \<Rightarrow> Inr (s\<lparr>console_errors := console_errors s @ [''ERROR: Channel not found: '' @ channelName]\<rparr>))"

text \<open>\<^verbatim>\<open>registerChannel(channel)\<close>.\<close>

definition registerChannel :: "channel \<Rightarrow> 'n node_state \<Rightarrow> 'n node_state" where
  "registerChannel ch s = s\<lparr>channels := (channels s)(name ch \<mapsto> ch)\<rparr>"

text \<open>
  The module's top level: the system channel is registered, the readiness message is
  sent, the event channel is registered.
\<close>

definition node_init :: "'n node_state" where
  "node_init =
     registerChannel \<lparr>cls = EventChannel, name = EVENT_CHANNEL, listeners = []\<rparr>
       ((registerChannel \<lparr>cls = SystemChannel, name = SYSTEM_CHANNEL, listeners = []\<rparr>
           \<lparr>channels = Map.empty, immediates = [], sent = [], invoked = [], heap = [],
            console_errors = [], uncaught = []\<rparr>)
        \<lparr>sent := [(SYSTEM_CHANNEL, ''ready-for-app-events'')]\<rparr>)"

text \<open>
  \<^verbatim>\<open>channel.on(type, listener)\<close>, called by the application: the emitter first
  emits "newListener" with the event and the function to the listeners of that event,
  then appends the listener.
\<close>

definition on :: "string \<Rightarrow> string \<Rightarrow> nat \<Rightarrow> 'n node_state \<Rightarrow> 'n node_state" where
  "on c type l s =
     (case channels s c of
        None \<Rightarrow> s
      | Some ch \<Rightarrow>
          (let s1 = (if listenerCount ch ''newListener'' = 0 then s
                     else emitLocal c ''newListener'' [Value (JStr type), ListenerRef l] s)
           in s1\<lparr>channels := (channels s1)(c \<mapsto> ch\<lparr>listeners := listeners ch @ [(type, l)]\<rparr>)\<rparr>))"

text \<open>A listener calls \<^verbatim>\<open>release()\<close> on the lock it was handed.\<close>

definition lock_release :: "nat \<Rightarrow> 'n node_state \<Rightarrow> 'n node_state" where
  "lock_release h s =
     (if h < length (heap s)
      then (case release (heap s ! h, sent s) of
              (l, out) \<Rightarrow> s\<lparr>heap := (heap s)[h := l], sent := out\<rparr>)
      else s)"


section \<open>The React Native side: EventChannel of src/RNNodeJsMobileModule.ts\<close>

text \<open>
  The state of the channel object and of what it acts on: the listeners held by the
  emitter it extends, as (id, event) in registration order, each \<^verbatim>\<open>addListener\<close>
  registering a fresh id; the private fields \<^verbatim>\<open>#name\<close>, \<^verbatim>\<open>#listenerCount\<close>
  and \<^verbatim>\<open>#subscription\<close> (set or \<^verbatim>\<open>null\<close>); the numbers of calls of the native
  module's \<^verbatim>\<open>addListener\<close> and of the native subscription's \<^verbatim>\<open>remove\<close>; the
  calls of listeners; the errors passed to \<^verbatim>\<open>console.warn\<close>; the calls of
  \<^verbatim>\<open>RNNodeJsMobile.sendMessage\<close>.
\<close>

record 'n rn_state =
  rn_listeners :: "(nat \<times> string) list"
  rn_next :: nat
  rn_name :: string
  rn_listenerCount :: int
  rn_subscription :: bool
  native_adds :: nat
  native_removes :: nat
  rn_invoked :: "'n invocation list"
  rn_warnings :: "MessageCodecError list"
  rn_sent :: outbox

definition startNativeSubscription :: "'n rn_state \<Rightarrow> 'n rn_state" where
  "startNativeSubscription s =
     (if rn_subscription s then s
      else s\<lparr>rn_subscription := True, native_adds := Suc (native_adds s)\<rparr>)"

definition stopNativeSubscription :: "'n rn_state \<Rightarrow> 'n rn_state" where
  "stopNativeSubscription s =
     (if \<not> rn_subscription s then s
      else s\<lparr>native_removes := Suc (native_removes s), rn_subscription := False\<rparr>)"

text \<open>\<^verbatim>\<open>post(event, ...msg)\<close> and \<^verbatim>\<open>send(...msg)\<close>; \<open>Inl\<close> is the exception of
  \<^verbatim>\<open>serialize\<close>, which leaves the method.\<close>

definition post ::
  "('n json \<Rightarrow> js_error + string) \<Rightarrow> 'n json \<Rightarrow> 'n json list \<Rightarrow> 'n rn_state
     \<Rightarrow> MessageCodecError + 'n rn_state" where
  "post stringify ev msg s =
     (case serialize stringify ev msg of
        Inl err \<Rightarrow> Inl err
      | Inr text \<Rightarrow> Inr (s\<lparr>rn_sent := rn_sent s @ [(rn_name s, text)]\<rparr>))"

definition send ::
  "('n json \<Rightarrow> js_error + string) \<Rightarrow> 'n json list \<Rightarrow> 'n rn_state
     \<Rightarrow> MessageCodecError + 'n rn_state" where
  "send stringify msg s = post stringify (JStr ''message'') msg s"

text \<open>\<^verbatim>\<open>emit(event, ...args)\<close> of the emitter: the listeners of the event are called
  before it returns.\<close>

definition emit :: "string \<Rightarrow> 'n arg list \<Rightarrow> 'n rn_state \<Rightarrow> 'n rn_state" where
  "emit type msg s =
     s\<lparr>rn_invoked := rn_invoked s @
          map (\<lambda>r. \<lparr>inv_channel = rn_name s, inv_listener = fst r, inv_event = type, inv_args = msg\<rparr>)
            (filter (\<lambda>r. snd r = type) (rn_listeners s))\<rparr>"

text \<open>\<^verbatim>\<open>#processData(data)\<close>: the \<^verbatim>\<open>catch\<close> warns and returns.\<close>

definition rn_processData ::
  "(string \<Rightarrow> js_error + 'n json) \<Rightarrow> string \<Rightarrow> 'n rn_state \<Rightarrow> 'n rn_state" where
  "rn_processData parse data s =
     (case deserialize parse (JStr data) of
        Inl err \<Rightarrow> s\<lparr>rn_warnings := rn_warnings s @ [err]\<rparr>
      | Inr envelope \<Rightarrow> emit (event envelope) (map Value (payload envelope)) s)"

text \<open>
  The callback given to the native module in \<^verbatim>\<open>#startNativeSubscription\<close>, called
  with each native event while the subscription is set.
\<close>

definition native_event ::
  "(string \<Rightarrow> js_error + 'n json) \<Rightarrow> string \<Rightarrow> string \<Rightarrow> 'n rn_state \<Rightarrow> 'n rn_state" where
  "native_event parse channelName message s =
     (if \<not> rn_subscription s then s
      else if channelName \<noteq> rn_name s then s
      else rn_processData parse message s)"

text \<open>
  \<^verbatim>\<open>addListener(event, listener)\<close>; the result is the id that stands for the returned
  subscription object, and the state.
\<close>

definition addListener :: "string \<Rightarrow> 'n rn_state \<Rightarrow> nat \<times> 'n rn_state" where
  "addListener ev s =
     (let s1 = s\<lparr>rn_listeners := rn_listeners s @ [(rn_next s, ev)], rn_next := Suc (rn_next s)\<rparr>;
          s2 = s1\<lparr>rn_listenerCount := rn_listenerCount s1 + 1\<rparr>
      in (rn_next s, if rn_listenerCount s2 = 1 then startNativeSubscription s2 else s2))"

text \<open>\<^verbatim>\<open>remove()\<close> of the subscription object returned for the id.\<close>

definition remove :: "nat \<Rightarrow> 'n rn_state \<Rightarrow> 'n rn_state" where
  "remove i s =
     (let s1 = s\<lparr>rn_listeners := filter (\<lambda>r. fst r \<noteq> i) (rn_listeners s)\<rparr>;
          s2 = s1\<lparr>rn_listenerCount := rn_listenerCount s1 - 1\<rparr>
      in if rn_listenerCount s2 = 0 then stopNativeSubscription s2 else s2)"

text \<open>\<^verbatim>\<open>new EventChannel(EVENT_CHANNEL)\<close>.\<close>

definition rn_init :: "'n rn_state" where
  "rn_init =
     \<lparr>rn_listeners = [], rn_next = 0, rn_name = EVENT_CHANNEL, rn_listenerCount = 0,
      rn_subscription = False, native_adds = 0, native_removes = 0, rn_invoked = [],
      rn_warnings = [], rn_sent = []\<rparr>"

text \<open>What the application does with the channel's listeners, and a run of it.\<close>

datatype rn_op = AddListener string | Remove nat

fun rn_step :: "'n rn_state \<Rightarrow> rn_op \<Rightarrow> 'n rn_state" where
  "rn_step s (AddListener ev) = snd (addListener ev s)"
| "rn_step s (Remove i) = remove i s"

definition rn_run :: "rn_op list \<Rightarrow> 'n rn_state" where
  "rn_run ops = foldl rn_step rn_init ops"

text \<open>
  A run in which every \<^verbatim>\<open>remove\<close> is the first call of it on a subscription that
  \<^verbatim>\<open>addListener\<close> returned, and the states in which \<^verbatim>\<open>#listenerCount\<close> is the
  number of registered listeners.
\<close>

fun proper :: "'n rn_state \<Rightarrow> rn_op list \<Rightarrow> bool" where
  "proper s [] = True"
| "proper s (AddListener ev # ops) = proper (rn_step s (AddListener ev)) ops"
| "proper s (Remove i # ops) = (i \<in> fst ` set (rn_listeners s) \<and> proper (rn_step s (Remove i)) ops)"

definition counted :: "'n rn_state \<Rightarrow> bool" where
  "counted s =
     (rn_listenerCount s = int (length (rn_listeners s))
      \<and> distinct (map fst (rn_listeners s))
      \<and> (\<forall>i \<in> fst ` set (rn_listeners s). i < rn_next s))"

section \<open>The host: RNNodeJsMobileModule.kt\<close>

text \<open>
  The companion object's flag and instance, the calls of the native
  \<^verbatim>\<open>sendMessageToNodeChannel\<close> and the events sent to React Native.
\<close>

record host_state =
  nodeIsReadyForAppEvents :: bool
  has_instance :: bool
  toNode :: outbox
  toReact :: outbox

definition handleAppChannelMessage :: "string \<Rightarrow> host_state \<Rightarrow> host_state" where
  "handleAppChannelMessage msg s =
     (if msg = ''ready-for-app-events'' then s\<lparr>nodeIsReadyForAppEvents := True\<rparr> else s)"

definition sendMessageBackToReact :: "string \<Rightarrow> string \<Rightarrow> host_state \<Rightarrow> host_state" where
  "sendMessageBackToReact channelName msg s =
     (if has_instance s then s\<lparr>toReact := toReact s @ [(channelName, msg)]\<rparr> else s)"

definition sendMessageToApplication :: "string \<Rightarrow> string \<Rightarrow> host_state \<Rightarrow> host_state" where
  "sendMessageToApplication channelName msg s =
     (if channelName = SYSTEM_CHANNEL then handleAppChannelMessage msg s
      else sendMessageBackToReact channelName msg s)"

definition sendMessage :: "string \<Rightarrow> string \<Rightarrow> host_state \<Rightarrow> host_state" where
  "sendMessage channel msg s = s\<lparr>toNode := toNode s @ [(channel, msg)]\<rparr>"

definition OnActivityEntersBackground :: "host_state \<Rightarrow> host_state" where
  "OnActivityEntersBackground s =
     (if nodeIsReadyForAppEvents s then sendMessage SYSTEM_CHANNEL ''pause'' s else s)"

definition OnActivityEntersForeground :: "host_state \<Rightarrow> host_state" where
  "OnActivityEntersForeground s =
     (if nodeIsReadyForAppEvents s then sendMessage SYSTEM_CHANNEL ''resume'' s else s)"

text \<open>
  What happens to the host: the embedded side sends a message, the activity enters the
  background or the foreground, a node is started (which sets the instance), or the
  JavaScript side calls the exposed function \<^verbatim>\<open>sendMessage(channel, msg)\<close> with
  a channel and a text of its choice.
\<close>

datatype host_event =
    FromNode string string
  | EntersBackground
  | EntersForeground
  | StartNode
  | JsSendMessage string string

fun host_step :: "host_state \<Rightarrow> host_event \<Rightarrow> host_state" where
  "host_step s (FromNode channelName msg) = sendMessageToApplication channelName msg s"
| "host_step s EntersBackground = OnActivityEntersBackground s"
| "host_step s EntersForeground = OnActivityEntersForeground s"
| "host_step s StartNode = s\<lparr>has_instance := True\<rparr>"
| "host_step s (JsSendMessage channel msg) = sendMessage channel msg s"

definition host_init :: host_state where
  "host_init = \<lparr>nodeIsReadyForAppEvents = False, has_instance = False, toNode = [], toReact = []\<rparr>"

definition host_run :: "host_event list \<Rightarrow> host_state" where
  "host_run evs = foldl host_step host_init evs"

text \<open>A call of the exposed \<^verbatim>\<open>sendMessage\<close> whose channel is the system channel.\<close>

fun direct_system_send :: "host_event \<Rightarrow> bool" where
  "direct_system_send (JsSendMessage channel msg) = (channel = SYSTEM_CHANNEL)"
| "direct_system_send _ = False"

section \<open>The attachment cache: get_jni_env of native-lib.cpp\<close>

definition MAX_ATTACHED_THREADS :: int where
  "MAX_ATTACHED_THREADS = 32"

text \<open>
  \<^verbatim>\<open>get_jni_env\<close> is run by any number of native threads at once, so it is modelled
  by its atomic steps. A thread is at one of these points of the function:
  \<^item> \<open>Idle\<close>: not in the function;
  \<^item> \<open>Entry\<close>: at \<^verbatim>\<open>if (tls_env) return tls_env;\<close>
  \<^item> \<open>CheckJvm\<close>: at \<^verbatim>\<open>if (!cached_jvm) return nullptr;\<close>
  \<^item> \<open>GetEnv\<close>: at \<^verbatim>\<open>cached_jvm->GetEnv(...)\<close> and the test for \<^verbatim>\<open>JNI_OK\<close>;
  \<^item> \<open>LoadCount\<close>: at \<^verbatim>\<open>attached_thread_count.load()\<close> and the test against the limit;
  \<^item> \<open>Attach\<close>: at \<^verbatim>\<open>AttachCurrentThread\<close> and the two assignments after it;
  \<^item> \<open>FetchAdd\<close>: at \<^verbatim>\<open>attached_thread_count.fetch_add(1) + 1\<close>;
  \<^item> \<open>LoadPeak\<close>: at \<^verbatim>\<open>peak_attached_threads.load()\<close>;
  \<^item> \<open>CasLoop\<close>: at the test of the \<^verbatim>\<open>while\<close> (one compare-exchange).
  Each step reads or writes one shared variable at most; what it does to the thread's
  own variables is part of the step.
\<close>

datatype pc = Idle | Entry | CheckJvm | GetEnv | LoadCount | Attach | FetchAdd | LoadPeak | CasLoop

text \<open>
  What a call returned: the environment, or \<^verbatim>\<open>nullptr\<close> from one of three
  places: no cached JVM, the limit reached (the refusal that is logged), the attachment
  failed.
\<close>

datatype outcome = Handle | NoJvm | AttachmentRefused | AttachmentFailed

text \<open>
  A thread: where it is, its thread-local \<^verbatim>\<open>tls_env\<close> (set or null) and
  \<^verbatim>\<open>tls_attached\<close>, the locals \<^verbatim>\<open>current_count\<close> and
  \<^verbatim>\<open>current_peak\<close>, what its last call returned, whether the JVM has the thread
  attached (what \<^verbatim>\<open>GetEnv\<close> answers) and whether the JVM will accept to attach it.
\<close>

record thread =
  pc :: pc
  tls_env :: bool
  tls_attached :: bool
  current_count :: int
  current_peak :: int
  result :: "outcome option"
  jvm_attached :: bool
  attach_ok :: bool

record pool =
  attached_thread_count :: int
  peak_attached_threads :: int
  cached_jvm :: bool
  threads :: "thread list"

definition returns :: "outcome \<Rightarrow> thread \<Rightarrow> thread" where
  "returns r th = th\<lparr>pc := Idle, result := Some r\<rparr>"

text \<open>One step of a thread: the thread after it and the two shared counters after it.\<close>

definition thread_step :: "thread \<Rightarrow> pool \<Rightarrow> thread \<times> int \<times> int" where
  "thread_step th s =
     (let count = attached_thread_count s; peak = peak_attached_threads s in
      case pc th of
        Idle \<Rightarrow> (th, count, peak)
      | Entry \<Rightarrow> (if tls_env th then returns Handle th else th\<lparr>pc := CheckJvm\<rparr>, count, peak)
      | CheckJvm \<Rightarrow> (if \<not> cached_jvm s then returns NoJvm th else th\<lparr>pc := GetEnv\<rparr>, count, peak)
      | GetEnv \<Rightarrow>
          (if jvm_attached th then returns Handle (th\<lparr>tls_env := True, tls_attached := False\<rparr>)
           else th\<lparr>pc := LoadCount\<rparr>, count, peak)
      | LoadCount \<Rightarrow>
          (if count \<ge> MAX_ATTACHED_THREADS
           then returns AttachmentRefused (th\<lparr>current_count := count\<rparr>)
           else th\<lparr>current_count := count, pc := Attach\<rparr>, count, peak)
      | Attach \<Rightarrow>
          (if attach_ok th
           then th\<lparr>jvm_attached := True, tls_env := True, tls_attached := True, pc := FetchAdd\<rparr>
           else returns AttachmentFailed th, count, peak)
      | FetchAdd \<Rightarrow> (th\<lparr>current_count := count + 1, pc := LoadPeak\<rparr>, count + 1, peak)
      | LoadPeak \<Rightarrow> (th\<lparr>current_peak := peak, pc := CasLoop\<rparr>, count, peak)
      | CasLoop \<Rightarrow>
          (if current_count th > current_peak th
           then (if peak = current_peak th then (returns Handle th, count, current_count th)
                 else (th\<lparr>current_peak := peak\<rparr>, count, peak))
           else (returns Handle th, count, peak)))"

text \<open>
  \<^verbatim>\<open>thread_cleanup_callback\<close>, run when a thread exits: the thread after it and the
  counter after it.
\<close>

definition thread_cleanup_callback :: "thread \<Rightarrow> pool \<Rightarrow> thread \<times> int" where
  "thread_cleanup_callback th s =
     (if tls_attached th \<and> cached_jvm s
      then (th\<lparr>jvm_attached := False, tls_env := False, tls_attached := False\<rparr>,
            attached_thread_count s - 1)
      else (th\<lparr>tls_env := False, tls_attached := False\<rparr>, attached_thread_count s))"

text \<open>
  What the scheduler does next: a thread that is not in the function calls it, a thread
  takes its next step, or a thread that is not in the function exits.
\<close>

datatype action = Call nat | Step nat | Exit nat

fun pool_act :: "pool \<Rightarrow> action \<Rightarrow> pool" where
  "pool_act s (Call t) =
     (if t < length (threads s) \<and> pc (threads s ! t) = Idle
      then s\<lparr>threads := (threads s)[t := (threads s ! t)\<lparr>pc := Entry, result := None\<rparr>]\<rparr>
      else s)"
| "pool_act s (Step t) =
     (if t < length (threads s)
      then (case thread_step (threads s ! t) s of
              (th, count, peak) \<Rightarrow>
                s\<lparr>attached_thread_count := count, peak_attached_threads := peak,
                  threads := (threads s)[t := th]\<rparr>)
      else s)"
| "pool_act s (Exit t) =
     (if t < length (threads s) \<and> pc (threads s ! t) = Idle
      then (case thread_cleanup_callback (threads s ! t) s of
              (th, count) \<Rightarrow> s\<lparr>attached_thread_count := count, threads := (threads s)[t := th]\<rparr>)
      else s)"

definition pool_run :: "action list \<Rightarrow> pool \<Rightarrow> pool" where
  "pool_run as s = foldl pool_act s as"

text \<open>A thread the JVM does not know yet, and the pool with \<open>n\<close> of them once the JVM is cached.\<close>

definition detached :: thread where
  "detached =
     \<lparr>pc = Idle, tls_env = False, tls_attached = False, current_count = 0, current_peak = 0,
      result = None, jvm_attached = False, attach_ok = True\<rparr>"

definition pool_init :: "nat \<Rightarrow> pool" where
  "pool_init n =
     \<lparr>attached_thread_count = 0, peak_attached_threads = 0, cached_jvm = True,
      threads = replicate n detached\<rparr>"

text \<open>
  Two schedules of \<open>n\<close> calls by \<open>n\<close> threads: each call runs from its entry to its
  return before the next one starts; or all the calls run together, every thread
  reaching \<^verbatim>\<open>AttachCurrentThread\<close> before any thread goes on.
\<close>

definition one_by_one :: "nat \<Rightarrow> action list" where
  "one_by_one n = concat (map (\<lambda>t. Call t # replicate 8 (Step t)) [0..<n])"

definition racing :: "nat \<Rightarrow> action list" where
  "racing n =
     concat (map (\<lambda>t. [Call t, Step t, Step t, Step t, Step t]) [0..<n])
     @ concat (map (\<lambda>t. [Step t, Step t, Step t, Step t]) [0..<n])"

definition successes :: "pool \<Rightarrow> nat" where
  "successes s = length (filter (\<lambda>th. result th = Some Handle) (threads s))"

definition refusals :: "pool \<Rightarrow> nat" where
  "refusals s = length (filter (\<lambda>th. result th = Some AttachmentRefused) (threads s))"

section \<open>The built-ins JSON.stringify and JSON.parse on a part of JSON\<close>

text \<open>
  The codec takes the two built-ins as parameters, and the properties of the codec are
  stated for any pair of them. This section gives a pair of functions to compute on
  concrete texts: the printer and the parser of JSON on values whose numbers are
  integers and whose strings are byte strings. They stand for the built-ins on the
  integers below \<open>2 ^ 53\<close> in absolute value only: beyond, \<^verbatim>\<open>JSON.parse\<close> rounds to a
  double and \<^verbatim>\<open>JSON.stringify\<close> writes an exponent from \<open>10 ^ 21\<close> on, which these
  functions do not. The printer writes what \<^verbatim>\<open>JSON.stringify\<close>
  writes for such a value: no white space, the properties of an object in their order,
  and in a string the escapes of the quote, the backslash and the control characters.
  It never fails: what makes \<^verbatim>\<open>JSON.stringify\<close> throw (a cycle, a BigInt) is not a
  value of the type. The parser reads the JSON grammar with white space between
  tokens, gives the last value to a repeated key, and reports a syntax error otherwise;
  a number with a fraction or an exponent is beyond this part of JSON and reported as
  a syntax error too. The parser's fuel bounds its nested calls; the text's length
  suffices for it.
\<close>

text \<open>Numbers and strings as \<^verbatim>\<open>JSON.stringify\<close> writes them.\<close>

definition hex_char :: "nat \<Rightarrow> char" where
  "hex_char d = (if d < 10 then char_of (48 + d) else char_of (87 + d))"

fun decimal :: "nat \<Rightarrow> string" where
  "decimal n = (if n < 10 then [char_of (48 + n)] else decimal (n div 10) @ [char_of (48 + n mod 10)])"

declare decimal.simps [simp del]

definition number_text :: "int \<Rightarrow> string" where
  "number_text i = (if i < 0 then CHR ''-'' # decimal (nat (- i)) else decimal (nat i))"

definition escape :: "char \<Rightarrow> string" where
  "escape c =
     (if c = CHR ''\"'' then [CHR 0x5C, CHR ''\"'']
      else if c = CHR 0x5C then [CHR 0x5C, CHR 0x5C]
      else if c = CHR 0x08 then [CHR 0x5C, CHR ''b'']
      else if c = CHR 0x09 then [CHR 0x5C, CHR ''t'']
      else if c = CHR 0x0A then [CHR 0x5C, CHR ''n'']
      else if c = CHR 0x0C then [CHR 0x5C, CHR ''f'']
      else if c = CHR 0x0D then [CHR 0x5C, CHR ''r'']
      else if (of_char c :: nat) < 32
      then [CHR 0x5C, CHR ''u'', CHR ''0'', CHR ''0'', hex_char (of_char c div 16), hex_char (of_char c mod 16)]
      else [c])"

definition quote :: "string \<Rightarrow> string" where
  "quote s = CHR ''\"'' # concat (map escape s) @ [CHR ''\"'']"

fun join :: "string \<Rightarrow> string list \<Rightarrow> string" where
  "join sep [] = []"
| "join sep [x] = x"
| "join sep (x # y # ys) = x @ sep @ join sep (y # ys)"

fun stringify_value :: "int json \<Rightarrow> string" where
  "stringify_value JNull = ''null''"
| "stringify_value (JBool b) = (if b then ''true'' else ''false'')"
| "stringify_value (JNum n) = number_text n"
| "stringify_value (JStr s) = quote s"
| "stringify_value (JArr vs) = ''['' @ join '','' (map stringify_value vs) @ '']''"
| "stringify_value (JObj kvs) =
     ''{'' @ join '','' (map (\<lambda>(k, v). quote k @ '':'' @ stringify_value v) kvs) @ ''}''"

definition JSON_stringify :: "int json \<Rightarrow> js_error + string" where
  "JSON_stringify v = Inr (stringify_value v)"

text \<open>White space, digits, hexadecimal digits, and the bytes of a code point written as
  an escape with four hexadecimal digits (UTF-8).\<close>

definition is_ws :: "char \<Rightarrow> bool" where
  "is_ws c = (c = CHR '' '' \<or> c = CHR 0x09 \<or> c = CHR 0x0A \<or> c = CHR 0x0D)"

definition skip_ws :: "string \<Rightarrow> string" where
  "skip_ws s = dropWhile is_ws s"

definition is_digit :: "char \<Rightarrow> bool" where
  "is_digit c = (48 \<le> (of_char c :: nat) \<and> (of_char c :: nat) \<le> 57)"

definition hex_value :: "char \<Rightarrow> nat option" where
  "hex_value c =
     (let n = (of_char c :: nat) in
      if 48 \<le> n \<and> n \<le> 57 then Some (n - 48)
      else if 97 \<le> n \<and> n \<le> 102 then Some (n - 87)
      else if 65 \<le> n \<and> n \<le> 70 then Some (n - 55)
      else None)"

definition utf8 :: "nat \<Rightarrow> string" where
  "utf8 n =
     (if n < 128 then [char_of n]
      else if n < 2048 then [char_of (192 + n div 64), char_of (128 + n mod 64)]
      else [char_of (224 + n div 4096), char_of (128 + (n div 64) mod 64), char_of (128 + n mod 64)])"

definition unescape :: "char \<Rightarrow> char option" where
  "unescape c =
     (if c = CHR ''\"'' \<or> c = CHR 0x5C \<or> c = CHR ''/'' then Some c
      else if c = CHR ''b'' then Some (CHR 0x08)
      else if c = CHR ''t'' then Some (CHR 0x09)
      else if c = CHR ''n'' then Some (CHR 0x0A)
      else if c = CHR ''f'' then Some (CHR 0x0C)
      else if c = CHR ''r'' then Some (CHR 0x0D)
      else None)"

text \<open>The characters of a string up to its closing quote, and the text after it.\<close>

fun parse_chars :: "string \<Rightarrow> (string \<times> string) option" where
  "parse_chars [] = None"
| "parse_chars (c # cs) =
     (if c = CHR ''\"'' then Some ([], cs)
      else if c = CHR 0x5C then
        (case cs of
           [] \<Rightarrow> None
         | e # r \<Rightarrow>
             if e = CHR ''u'' then
               (case r of
                  a # b # c # d # r' \<Rightarrow>
                    (case (hex_value a, hex_value b, hex_value c, hex_value d) of
                       (Some h1, Some h2, Some h3, Some h4) \<Rightarrow>
                         (case parse_chars r' of
                            None \<Rightarrow> None
                          | Some (str, rest) \<Rightarrow> Some (utf8 (((h1 * 16 + h2) * 16 + h3) * 16 + h4) @ str, rest))
                     | _ \<Rightarrow> None)
                | _ \<Rightarrow> None)
             else
               (case unescape e of
                  None \<Rightarrow> None
                | Some x \<Rightarrow>
                    (case parse_chars r of
                       None \<Rightarrow> None
                     | Some (str, rest) \<Rightarrow> Some (x # str, rest))))
      else if (of_char c :: nat) < 32 then None
      else (case parse_chars cs of
              None \<Rightarrow> None
            | Some (str, rest) \<Rightarrow> Some (c # str, rest)))"

text \<open>An integer: an optional minus sign, then 0 or digits that do not start with 0.\<close>

definition parse_number :: "string \<Rightarrow> (int \<times> string) option" where
  "parse_number s =
     (let neg = (s \<noteq> [] \<and> hd s = CHR ''-'');
          s1 = (if neg then tl s else s);
          ds = takeWhile is_digit s1;
          rest = dropWhile is_digit s1;
          n = foldl (\<lambda>a c. 10 * a + (of_char c - 48)) (0::nat) ds
      in if ds = [] then None
         else if hd ds = CHR ''0'' \<and> length ds > 1 then None
         else if rest \<noteq> [] \<and> (hd rest = CHR ''.'' \<or> hd rest = CHR ''e'' \<or> hd rest = CHR ''E'') then None
         else Some (if neg then - int n else int n, rest))"

definition literal :: "string \<Rightarrow> string \<Rightarrow> string option" where
  "literal w s = (if take (length w) s = w then Some (drop (length w) s) else None)"

text \<open>
  A member is put before the members parsed after it; when its key comes again among
  them, the key keeps this first place and takes the later value.
\<close>

definition add_member :: "string \<Rightarrow> int json \<Rightarrow> (string \<times> int json) list \<Rightarrow> (string \<times> int json) list" where
  "add_member k v kvs =
     (case map_of kvs k of
        None \<Rightarrow> (k, v) # kvs
      | Some v' \<Rightarrow> (k, v') # filter (\<lambda>p. fst p \<noteq> k) kvs)"

text \<open>
  A value; the elements of an array after its first bracket; the members of an object
  after its first brace.
\<close>

fun parse_value :: "nat \<Rightarrow> string \<Rightarrow> (int json \<times> string) option"
  and parse_elements :: "nat \<Rightarrow> string \<Rightarrow> (int json list \<times> string) option"
  and parse_members :: "nat \<Rightarrow> string \<Rightarrow> ((string \<times> int json) list \<times> string) option"
where
  "parse_value 0 s = None"
| "parse_value (Suc f) s =
     (case s of
        [] \<Rightarrow> None
      | c # cs \<Rightarrow>
          if c = CHR ''\"'' then
            (case parse_chars cs of None \<Rightarrow> None | Some (str, r) \<Rightarrow> Some (JStr str, r))
          else if c = CHR ''['' then
            (case skip_ws cs of
               [] \<Rightarrow> None
             | d # r \<Rightarrow>
                 if d = CHR '']'' then Some (JArr [], r)
                 else (case parse_elements f (d # r) of
                         None \<Rightarrow> None
                       | Some (vs, r') \<Rightarrow> Some (JArr vs, r')))
          else if c = CHR ''{'' then
            (case skip_ws cs of
               [] \<Rightarrow> None
             | d # r \<Rightarrow>
                 if d = CHR ''}'' then Some (JObj [], r)
                 else (case parse_members f (d # r) of
                         None \<Rightarrow> None
                       | Some (kvs, r') \<Rightarrow> Some (JObj kvs, r')))
          else if c = CHR ''n'' then
            (case literal ''null'' s of None \<Rightarrow> None | Some r \<Rightarrow> Some (JNull, r))
          else if c = CHR ''t'' then
            (case literal ''true'' s of None \<Rightarrow> None | Some r \<Rightarrow> Some (JBool True, r))
          else if c = CHR ''f'' then
            (case literal ''false'' s of None \<Rightarrow> None | Some r \<Rightarrow> Some (JBool False, r))
          else (case parse_number s of None \<Rightarrow> None | Some (n, r) \<Rightarrow> Some (JNum n, r)))"
| "parse_elements 0 s = None"
| "parse_elements (Suc f) s =
     (case parse_value f s of
        None \<Rightarrow> None
      | Some (v, r) \<Rightarrow>
          (case skip_ws r of
             [] \<Rightarrow> None
           | d # r' \<Rightarrow>
               if d = CHR '']'' then Some ([v], r')
               else if d = CHR '','' then
                 (case parse_elements f (skip_ws r') of
                    None \<Rightarrow> None
                  | Some (vs, r'') \<Rightarrow> Some (v # vs, r''))
               else None))"
| "parse_members 0 s = None"
| "parse_members (Suc f) s =
     (case s of
        [] \<Rightarrow> None
      | q # cs \<Rightarrow>
          if q \<noteq> CHR ''\"'' then None
          else (case parse_chars cs of
                  None \<Rightarrow> None
                | Some (k, r) \<Rightarrow>
                    (case skip_ws r of
                       [] \<Rightarrow> None
                     | colon # r1 \<Rightarrow>
                         if colon \<noteq> CHR '':'' then None
                         else (case parse_value f (skip_ws r1) of
                                 None \<Rightarrow> None
                               | Some (v, r2) \<Rightarrow>
                                   (case skip_ws r2 of
                                      [] \<Rightarrow> None
                                    | d # r3 \<Rightarrow>
                                        if d = CHR ''}'' then Some ([(k, v)], r3)
                                        else if d = CHR '','' then
                                          (case parse_members f (skip_ws r3) of
                                             None \<Rightarrow> None
                                           | Some (kvs, r4) \<Rightarrow> Some (add_member k v kvs, r4))
                                        else None)))))"

definition JSON_parse :: "string \<Rightarrow> js_error + int json" where
  "JSON_parse text =
     (case parse_value (2 * length text + 1) (skip_ws text) of
        None \<Rightarrow> Inl SyntaxError
      | Some (v, rest) \<Rightarrow> if skip_ws rest = [] then Inr v else Inl SyntaxError)"

text \<open>
  The values of this part of JSON: every number is an integer that a double holds
  exactly (below \<open>2 ^ 53\<close> in absolute value), and every object has each of its keys once.
\<close>

fun wf_json :: "int json \<Rightarrow> bool" where
  "wf_json (JNum n) = (\<bar>n\<bar> < 2 ^ 53)"
| "wf_json (JArr vs) = (\<forall>v \<in> set vs. wf_json v)"
| "wf_json (JObj kvs) = (distinct (map fst kvs) \<and> (\<forall>kv \<in> set kvs. wf_json (snd kv)))"
| "wf_json _ = True"

text \<open>What may follow the text of a number: nothing, or a character that is neither a
  digit nor the start of a fraction or of an exponent.\<close>

definition follows_number :: "string \<Rightarrow> bool" where
  "follows_number rest =
     (rest = [] \<or> \<not> is_digit (hd rest) \<and> hd rest \<noteq> CHR ''.'' \<and> hd rest \<noteq> CHR ''e'' \<and> hd rest \<noteq> CHR ''E'')"

section \<open>Properties of the lock\<close>

lemma releases_state:
  "(release ^^ k) (new_SystemEventLock cb n w) =
     (if n \<le> int k
      then (\<lparr>locksAcquired = min n 0, callback = cb, hasReleased = True\<rparr>, cb w)
      else (\<lparr>locksAcquired = n - int k, callback = cb, hasReleased = False\<rparr>, w))"
proof (induction k)
  case 0
  show ?case by (simp add: new_SystemEventLock_def checkRelease_def)
next
  case (Suc k)
  show ?case
  proof (cases "n \<le> int k")
    case True
    with Suc show ?thesis by (simp add: release_def)
  next
    case False
    with Suc show ?thesis by (auto simp: release_def checkRelease_def)
  qed
qed

text \<open>
  C2. The callback counts its calls (the world is the counter). Built with \<open>n\<close> locks
  and released \<open>k\<close> times, the lock has called it once when \<open>n \<le> k\<close> and not at all
  before, and \<open>hasReleased\<close> is set exactly then: the call happens at the step where
  the count first reaches \<open>\<le> 0\<close>, which is the construction when \<open>n \<le> 0\<close>. With three
  locks the third release fires, a fourth release changes nothing, and with no lock
  the constructor fires.
\<close>

theorem lock_fires_exactly_once:
  "snd ((release ^^ k) (new_SystemEventLock Suc n 0)) = (if n \<le> int k then 1 else 0)
   \<and> hasReleased (fst ((release ^^ k) (new_SystemEventLock Suc n 0))) = (n \<le> int k)
   \<and> snd ((release ^^ 2) (new_SystemEventLock Suc 3 0)) = 0
   \<and> snd ((release ^^ 3) (new_SystemEventLock Suc 3 0)) = 1
   \<and> release ((release ^^ 3) (new_SystemEventLock Suc 3 0)) = (release ^^ 3) (new_SystemEventLock Suc 3 0)
   \<and> snd (new_SystemEventLock Suc 0 0) = 1"
proof -
  have a: "snd ((release ^^ k) (new_SystemEventLock Suc n 0)) = (if n \<le> int k then 1 else 0)"
    by (simp add: releases_state)
  have b: "hasReleased (fst ((release ^^ k) (new_SystemEventLock Suc n 0))) = (n \<le> int k)"
    by (simp add: releases_state)
  have c: "snd ((release ^^ 2) (new_SystemEventLock Suc 3 0)) = 0"
    by (simp only: releases_state) simp
  have d: "snd ((release ^^ 3) (new_SystemEventLock Suc 3 0)) = 1"
    by (simp only: releases_state) simp
  have e: "release ((release ^^ 3) (new_SystemEventLock Suc 3 0))
             = (release ^^ 3) (new_SystemEventLock Suc 3 0)"
    by (simp only: releases_state) (simp add: release_def)
  have f: "snd (new_SystemEventLock Suc 0 0) = 1"
    using releases_state [of 0 Suc 0 0] by simp
  from a b c d e f show ?thesis by blast
qed

section \<open>Properties of the system channel\<close>


lemma js_split_nonempty: "js_split sep s \<noteq> []"
  by (induction s) (auto split: list.splits)

lemma js_split_no_sep: "sep \<notin> set s \<Longrightarrow> js_split sep s = [s]"
  by (induction s) auto

lemma js_split_hd: "hd (js_split sep s) = takeWhile (\<lambda>c. c \<noteq> sep) s"
  by (induction s) (auto split: list.splits simp: js_split_nonempty)

lemma js_split_tl:
  "sep \<in> set s \<Longrightarrow> tl (js_split sep s) = js_split sep (tl (dropWhile (\<lambda>c. c \<noteq> sep) s))"
  by (induction s) (auto split: list.splits simp: js_split_nonempty js_split_no_sep)

lemma js_split_length: "(2 \<le> length (js_split sep s)) = (sep \<in> set s)"
  by (induction s) (auto split: list.splits simp: js_split_nonempty)

lemma js_split_second:
  assumes "sep \<in> set s"
  shows "js_split sep s ! 1 = takeWhile (\<lambda>c. c \<noteq> sep) (tl (dropWhile (\<lambda>c. c \<noteq> sep) s))"
proof -
  have "js_split sep s ! 1 = hd (tl (js_split sep s))"
    using assms js_split_length [of sep s]
    by (cases "js_split sep s"; cases "tl (js_split sep s)") auto
  then show ?thesis using assms by (simp add: js_split_tl js_split_hd)
qed

lemma releaseMessage_eq:
  "releaseMessage t =
     (if CHR ''|'' \<in> set t
      then ''release-pause-event|'' @ takeWhile (\<lambda>c. c \<noteq> CHR ''|'') (tl (dropWhile (\<lambda>c. c \<noteq> CHR ''|'') t))
      else ''release-pause-event'')"
  using js_split_second [of "CHR ''|''" t]
  by (simp add: releaseMessage_def Let_def js_split_length)

lemma lock_release_iter:
  "h < length (heap s) \<Longrightarrow>
   (lock_release h ^^ k) s =
     (case (release ^^ k) (heap s ! h, sent s) of
        (l, out) \<Rightarrow> s\<lparr>heap := (heap s)[h := l], sent := out\<rparr>)"
proof (induction k)
  case 0
  then show ?case by simp
next
  case (Suc k)
  then show ?case
    by (auto simp: lock_release_def split: prod.splits)
qed


lemma pause_is_handled [simp]: "\<not> unhandled_error ch ''pause''"
  by (simp add: unhandled_error_def)

lemma emitLocal_fields [simp]:
  "heap (emitLocal c ty m s) = heap s" "sent (emitLocal c ty m s) = sent s"
  "immediates (emitLocal c ty m s) = immediates s" "channels (emitLocal c ty m s) = channels s"
  by (simp_all add: emitLocal_def split: option.splits)

lemma pause_closure_lock:
  assumes "channels s c = Some ch"
  shows "heap (pause_closure c t s) =
           heap s @ [fst (new_SystemEventLock (\<lambda>out. out @ [(name ch, releaseMessage t)])
                            (int (listenerCount ch ''pause'')) (sent s))]"
    and "sent (pause_closure c t s) =
           snd (new_SystemEventLock (\<lambda>out. out @ [(name ch, releaseMessage t)])
                  (int (listenerCount ch ''pause'')) (sent s))"
  using assms by (simp_all add: pause_closure_def split: prod.splits)

lemma pause_closure_invoked:
  "invoked (pause_closure c t s) =
     invoked s @
       (case channels s c of
          None \<Rightarrow> []
        | Some ch \<Rightarrow>
            map (\<lambda>r. \<lparr>inv_channel = c, inv_listener = snd r, inv_event = ''pause'',
                      inv_args = [LockHandle (length (heap s))]\<rparr>)
              (filter (\<lambda>r. fst r = ''pause'') (listeners ch)))"
  by (simp add: pause_closure_def emitLocal_def split: option.splits prod.splits)

lemma pause_closure_releases:
  assumes "channels s c = Some ch"
  shows "sent ((lock_release (length (heap s)) ^^ k) (pause_closure c t s)) =
           sent s @ (if listenerCount ch ''pause'' \<le> k then [(name ch, releaseMessage t)] else [])"
proof -
  let ?cb = "\<lambda>out. out @ [(name ch, releaseMessage t)]"
  let ?n = "int (listenerCount ch ''pause'')"
  let ?s2 = "pause_closure c t s"
  have h: "length (heap s) < length (heap ?s2)"
    using assms by (simp add: pause_closure_lock)
  have pair: "(heap ?s2 ! length (heap s), sent ?s2) = new_SystemEventLock ?cb ?n (sent s)"
    using assms by (simp add: pause_closure_lock)
  have "sent ((lock_release (length (heap s)) ^^ k) ?s2) =
          snd ((release ^^ k) (heap ?s2 ! length (heap s), sent ?s2))"
    by (simp add: lock_release_iter [OF h] split: prod.splits)
  also have "\<dots> = snd ((release ^^ k) (new_SystemEventLock ?cb ?n (sent s)))"
    by (simp only: pair)
  also have "\<dots> = sent s @ (if listenerCount ch ''pause'' \<le> k then [(name ch, releaseMessage t)] else [])"
    by (simp add: releases_state)
  finally show ?thesis .
qed

text \<open>
  C4 (amended). A text \<open>t\<close> that is "pause", or "pause|" followed by an event id,
  arrives on the system channel \<open>c\<close>. On receipt (state \<open>s\<close>) the bridge listener only
  queues the pause closure. When the closure runs (state \<open>s'\<close>, where the channel has
  \<open>N\<close> listeners of "pause") it builds one lock with \<open>locksAcquired = N\<close> and calls each
  of these listeners, in registration order, with the event "pause" and that lock.
  After \<open>k\<close> calls of \<open>release()\<close> on the lock, the bridge has sent the release message
  once if \<open>N \<le> k\<close> and not at all otherwise (so at once when \<open>N = 0\<close>); the message is
  "release-pause-event" for "pause", and otherwise "release-pause-event|" followed by
  the part of the event id before its first "|" (the whole id when it has no "|").
\<close>

theorem pause_barrier_correlation:
  assumes ch: "channels s c = Some ch" and sys: "cls ch = SystemChannel" and nm: "name ch = c"
    and ch': "channels s' c = Some ch'" and nm': "name ch' = c"
    and t: "t = ''pause'' \<or> t = ''pause|'' @ eventId"
  shows "bridgeListener parse c t s = Inr (s\<lparr>immediates := immediates s @ [PauseTask c t]\<rparr>)
    \<and> run_task (PauseTask c t) s' = pause_closure c t s'
    \<and> length (heap (pause_closure c t s')) = Suc (length (heap s'))
    \<and> locksAcquired (heap (pause_closure c t s') ! length (heap s')) = int (listenerCount ch' ''pause'')
    \<and> invoked (pause_closure c t s') =
         invoked s' @ map (\<lambda>r. \<lparr>inv_channel = c, inv_listener = snd r, inv_event = ''pause'',
                               inv_args = [LockHandle (length (heap s'))]\<rparr>)
                       (filter (\<lambda>r. fst r = ''pause'') (listeners ch'))
    \<and> sent ((lock_release (length (heap s')) ^^ k) (pause_closure c t s')) =
         sent s' @ (if listenerCount ch' ''pause'' \<le> k
                    then [(c, if t = ''pause'' then ''release-pause-event''
                              else ''release-pause-event|'' @ takeWhile (\<lambda>x. x \<noteq> CHR ''|'') eventId)]
                    else [])"
proof -
  have msg: "releaseMessage t =
               (if t = ''pause'' then ''release-pause-event''
                else ''release-pause-event|'' @ takeWhile (\<lambda>x. x \<noteq> CHR ''|'') eventId)"
    using t by (auto simp: releaseMessage_eq)
  have pre: "startsWith t ''pause''"
    using t by (auto simp: startsWith_def)
  have 1: "bridgeListener parse c t s = Inr (s\<lparr>immediates := immediates s @ [PauseTask c t]\<rparr>)"
    using ch sys nm pre by (simp add: bridgeListener_def processData_def SystemChannel_emitWrapper_def)
  have 2: "run_task (PauseTask c t) s' = pause_closure c t s'" by simp
  have 3: "length (heap (pause_closure c t s')) = Suc (length (heap s'))"
    using ch' by (simp add: pause_closure_lock)
  have 4: "locksAcquired (heap (pause_closure c t s') ! length (heap s')) = int (listenerCount ch' ''pause'')"
    using ch' by (simp add: pause_closure_lock new_SystemEventLock_def checkRelease_def)
  have 5: "invoked (pause_closure c t s') =
         invoked s' @ map (\<lambda>r. \<lparr>inv_channel = c, inv_listener = snd r, inv_event = ''pause'',
                               inv_args = [LockHandle (length (heap s'))]\<rparr>)
                       (filter (\<lambda>r. fst r = ''pause'') (listeners ch'))"
    using ch' by (simp add: pause_closure_invoked)
  have 6: "sent ((lock_release (length (heap s')) ^^ k) (pause_closure c t s')) =
         sent s' @ (if listenerCount ch' ''pause'' \<le> k
                    then [(c, if t = ''pause'' then ''release-pause-event''
                              else ''release-pause-event|'' @ takeWhile (\<lambda>x. x \<noteq> CHR ''|'') eventId)]
                    else [])"
    using pause_closure_releases [OF ch', of k t] by (simp only: msg nm')
  from 1 2 3 4 5 6 show ?thesis by blast
qed

theorem pause_barrier_correlation_witness:
  "sent ((lock_release 0 ^^ 2)
          (pause_closure SYSTEM_CHANNEL ''pause|42|x''
             (on SYSTEM_CHANNEL ''pause'' 8 (on SYSTEM_CHANNEL ''pause'' 7 (node_init :: nat node_state)))))
     = [(SYSTEM_CHANNEL, ''ready-for-app-events''), (SYSTEM_CHANNEL, ''release-pause-event|42'')]
   \<and> sent ((lock_release 0 ^^ 1)
          (pause_closure SYSTEM_CHANNEL ''pause|42|x''
             (on SYSTEM_CHANNEL ''pause'' 8 (on SYSTEM_CHANNEL ''pause'' 7 (node_init :: nat node_state)))))
     = [(SYSTEM_CHANNEL, ''ready-for-app-events'')]
   \<and> bridgeListener (\<lambda>_. Inl SyntaxError) SYSTEM_CHANNEL ''pause|42|x'' (node_init :: nat node_state)
     = Inr (node_init\<lparr>immediates := [PauseTask SYSTEM_CHANNEL ''pause|42|x'']\<rparr>)"
proof -
  let ?s = "node_init :: nat node_state"
  let ?s' = "on SYSTEM_CHANNEL ''pause'' 8 (on SYSTEM_CHANNEL ''pause'' 7 (node_init :: nat node_state))"
  let ?ch = "\<lparr>cls = SystemChannel, name = SYSTEM_CHANNEL, listeners = []\<rparr>"
  let ?ch' = "\<lparr>cls = SystemChannel, name = SYSTEM_CHANNEL, listeners = [(''pause'', 7), (''pause'', 8)]\<rparr>"
  have ch: "channels ?s SYSTEM_CHANNEL = Some ?ch"
    by (simp add: node_init_def registerChannel_def SYSTEM_CHANNEL_def EVENT_CHANNEL_def)
  have ch': "channels ?s' SYSTEM_CHANNEL = Some ?ch'"
    by (simp add: on_def listenerCount_def node_init_def registerChannel_def SYSTEM_CHANNEL_def
        EVENT_CHANNEL_def)
  have t: "''pause|42|x'' = ''pause'' \<or> ''pause|42|x'' = ''pause|'' @ ''42|x''"
    by simp
  have hp: "heap ?s' = []" and st: "sent ?s' = [(SYSTEM_CHANNEL, ''ready-for-app-events'')]"
    by (simp_all add: on_def listenerCount_def node_init_def registerChannel_def SYSTEM_CHANNEL_def
        EVENT_CHANNEL_def)
  have q: "immediates ?s = []"
    by (simp add: node_init_def registerChannel_def)
  have n: "listenerCount ?ch' ''pause'' = 2"
    by (simp add: listenerCount_def)
  show ?thesis
    using pause_barrier_correlation [OF ch _ _ ch' _ t, of "\<lambda>_. Inl SyntaxError" 2]
          pause_barrier_correlation [OF ch _ _ ch' _ t, of "\<lambda>_. Inl SyntaxError" 1]
    by (simp add: hp st n q)
qed

text \<open>
  The claim as written fails twice. For an event id that contains "|" only the part of
  the id before its first "|" comes back. And the count is not taken on receipt: a
  "pause" received while the channel has no listener, followed by the registration of
  a listener before the closure runs, builds a lock of one lock that waits for this
  listener, where a count of 0 taken on receipt would send the release at once.
\<close>

theorem pause_barrier_correlation_counterexample:
  "(case bridgeListener (\<lambda>_. Inl SyntaxError) SYSTEM_CHANNEL ''pause|a|b'' (node_init :: nat node_state) of
      Inl err \<Rightarrow> []
    | Inr s \<Rightarrow> sent (run_immediate s))
   = [(SYSTEM_CHANNEL, ''ready-for-app-events''), (SYSTEM_CHANNEL, ''release-pause-event|a'')]
   \<and> (case bridgeListener (\<lambda>_. Inl SyntaxError) SYSTEM_CHANNEL ''pause'' (node_init :: nat node_state) of
      Inl err \<Rightarrow> []
    | Inr s \<Rightarrow> sent (run_immediate (on SYSTEM_CHANNEL ''pause'' 7 s)))
   = [(SYSTEM_CHANNEL, ''ready-for-app-events'')]
   \<and> (case bridgeListener (\<lambda>_. Inl SyntaxError) SYSTEM_CHANNEL ''pause'' (node_init :: nat node_state) of
      Inl err \<Rightarrow> []
    | Inr s \<Rightarrow> map locksAcquired (heap (run_immediate (on SYSTEM_CHANNEL ''pause'' 7 s))))
   = [1]
   \<and> (case bridgeListener (\<lambda>_. Inl SyntaxError) SYSTEM_CHANNEL ''pause'' (node_init :: nat node_state) of
      Inl err \<Rightarrow> []
    | Inr s \<Rightarrow> invoked (run_immediate (on SYSTEM_CHANNEL ''pause'' 7 s)))
   = [\<lparr>inv_channel = SYSTEM_CHANNEL, inv_listener = 7, inv_event = ''pause'',
       inv_args = [LockHandle 0]\<rparr>]"
  by (simp add: bridgeListener_def processData_def SystemChannel_emitWrapper_def startsWith_def
      node_init_def registerChannel_def SYSTEM_CHANNEL_def EVENT_CHANNEL_def run_immediate_def
      pause_closure_def listenerCount_def new_SystemEventLock_def checkRelease_def
      releaseMessage_def emitLocal_def on_def unhandled_error_def)

text \<open>
  C9 (amended). The system channel takes the pause path exactly for the texts that
  start with "pause" (so also for "pauseX"); the pause closure calls the listeners of
  "pause" with the event name "pause" whatever follows the prefix; and the event id
  appended to the release message is the part of the text between its first "|" and
  its second "|" (or its end, when there is one "|" only).
\<close>

theorem pause_prefix_matching:
  "immediates (SystemChannel_emitWrapper ch t s) =
     immediates s @ [if startsWith t ''pause'' then PauseTask (name ch) t
                     else EmitLocalTask (name ch) t []]
   \<and> startsWith ''pauseX'' ''pause''
   \<and> invoked (run_task (PauseTask c t) s) =
       invoked s @
         (case channels s c of
            None \<Rightarrow> []
          | Some ch' \<Rightarrow>
              map (\<lambda>r. \<lparr>inv_channel = c, inv_listener = snd r, inv_event = ''pause'',
                        inv_args = [LockHandle (length (heap s))]\<rparr>)
                (filter (\<lambda>r. fst r = ''pause'') (listeners ch')))
   \<and> releaseMessage t =
       (if CHR ''|'' \<in> set t
        then ''release-pause-event|'' @
               takeWhile (\<lambda>x. x \<noteq> CHR ''|'') (tl (dropWhile (\<lambda>x. x \<noteq> CHR ''|'') t))
        else ''release-pause-event'')"
proof -
  have 1: "immediates (SystemChannel_emitWrapper ch t s) =
     immediates s @ [if startsWith t ''pause'' then PauseTask (name ch) t
                     else EmitLocalTask (name ch) t []]"
    by (simp add: SystemChannel_emitWrapper_def)
  have 2: "startsWith ''pauseX'' ''pause''"
    by (simp add: startsWith_def)
  from 1 2 pause_closure_invoked [of c t s] releaseMessage_eq [of t] show ?thesis
    by simp
qed

text \<open>
  The claim as written takes the event id to be everything after the first "|"; for
  "pause|x|y" that would be "x|y", and the code sends back "x".
\<close>

theorem pause_prefix_matching_counterexample:
  "tl (dropWhile (\<lambda>x. x \<noteq> CHR ''|'') ''pause|x|y'') = ''x|y''
   \<and> releaseMessage ''pause|x|y'' = ''release-pause-event|x''
   \<and> releaseMessage ''pause|x|y'' \<noteq> ''release-pause-event|'' @ ''x|y''"
  by (simp add: releaseMessage_def)

section \<open>Properties of the React Native channel\<close>


lemma rn_run_snoc: "rn_run (ops @ [x]) = rn_step (rn_run ops) x"
  by (simp add: rn_run_def)

lemma rn_subscription_invariant:
  "rn_subscription (rn_run ops :: 'n rn_state) = (1 \<le> rn_listenerCount (rn_run ops :: 'n rn_state))"
proof (induction ops rule: rev_induct)
  case Nil
  show ?case by (simp add: rn_run_def rn_init_def)
next
  case (snoc x ops)
  then show ?case
    by (cases x)
       (auto simp: rn_run_snoc addListener_def remove_def Let_def
          startNativeSubscription_def stopNativeSubscription_def)
qed

text \<open>
  The native subscription follows the field \<^verbatim>\<open>#listenerCount\<close>: in every state the
  channel reaches by adding listeners and removing subscriptions, \<^verbatim>\<open>addListener\<close>
  starts the native subscription exactly when the field is 0 before it and never stops
  it, and \<^verbatim>\<open>remove\<close> stops it exactly when the field is 1 before it and never
  starts it. Adding three listeners starts it once; removing the three then stops it
  once and leaves no native subscription.
\<close>

lemma subscription_follows_counter:
  "native_adds (snd (addListener ev (rn_run ops :: 'n rn_state))) =
     native_adds (rn_run ops :: 'n rn_state) + (if rn_listenerCount (rn_run ops :: 'n rn_state) = 0 then 1 else 0)
   \<and> native_removes (snd (addListener ev (rn_run ops :: 'n rn_state))) = native_removes (rn_run ops :: 'n rn_state)
   \<and> native_adds (remove i (rn_run ops :: 'n rn_state)) = native_adds (rn_run ops :: 'n rn_state)
   \<and> native_removes (remove i (rn_run ops :: 'n rn_state)) =
       native_removes (rn_run ops :: 'n rn_state) + (if rn_listenerCount (rn_run ops :: 'n rn_state) = 1 then 1 else 0)
   \<and> native_adds (rn_run [AddListener ''a'', AddListener ''b'', AddListener ''a''] :: 'n rn_state) = 1
   \<and> native_removes (rn_run [AddListener ''a'', AddListener ''b'', AddListener ''a''] :: 'n rn_state) = 0
   \<and> native_adds (rn_run [AddListener ''a'', AddListener ''b'', AddListener ''a'',
                            Remove 0, Remove 1, Remove 2] :: 'n rn_state) = 1
   \<and> native_removes (rn_run [AddListener ''a'', AddListener ''b'', AddListener ''a'',
                               Remove 0, Remove 1, Remove 2] :: 'n rn_state) = 1
   \<and> \<not> rn_subscription (rn_run [AddListener ''a'', AddListener ''b'', AddListener ''a'',
                                 Remove 0, Remove 1, Remove 2] :: 'n rn_state)"
proof -
  let ?s = "rn_run ops :: 'n rn_state"
  have inv: "rn_subscription ?s = (1 \<le> rn_listenerCount ?s)"
    by (rule rn_subscription_invariant)
  have 1: "native_adds (snd (addListener ev ?s)) =
             native_adds ?s + (if rn_listenerCount ?s = 0 then 1 else 0)"
    using inv by (simp add: addListener_def Let_def startNativeSubscription_def)
  have 2: "native_removes (snd (addListener ev ?s)) = native_removes ?s"
    by (simp add: addListener_def Let_def startNativeSubscription_def)
  have 3: "native_adds (remove i ?s) = native_adds ?s"
    by (simp add: remove_def Let_def stopNativeSubscription_def)
  have 4: "native_removes (remove i ?s) =
             native_removes ?s + (if rn_listenerCount ?s = 1 then 1 else 0)"
    using inv by (simp add: remove_def Let_def stopNativeSubscription_def)
  have 5: "native_adds (rn_run [AddListener ''a'', AddListener ''b'', AddListener ''a''] :: 'n rn_state) = 1"
    by (simp add: rn_run_def rn_init_def addListener_def Let_def startNativeSubscription_def)
  have 6: "native_removes (rn_run [AddListener ''a'', AddListener ''b'', AddListener ''a''] :: 'n rn_state) = 0"
    by (simp add: rn_run_def rn_init_def addListener_def Let_def startNativeSubscription_def)
  have 7: "native_adds (rn_run [AddListener ''a'', AddListener ''b'', AddListener ''a'',
                            Remove 0, Remove 1, Remove 2] :: 'n rn_state) = 1"
    by (simp add: rn_run_def rn_init_def addListener_def remove_def Let_def
        startNativeSubscription_def stopNativeSubscription_def)
  have 8: "native_removes (rn_run [AddListener ''a'', AddListener ''b'', AddListener ''a'',
                               Remove 0, Remove 1, Remove 2] :: 'n rn_state) = 1"
    by (simp add: rn_run_def rn_init_def addListener_def remove_def Let_def
        startNativeSubscription_def stopNativeSubscription_def)
  have 9: "\<not> rn_subscription (rn_run [AddListener ''a'', AddListener ''b'', AddListener ''a'',
                                 Remove 0, Remove 1, Remove 2] :: 'n rn_state)"
    by (simp add: rn_run_def rn_init_def addListener_def remove_def Let_def
        startNativeSubscription_def stopNativeSubscription_def)
  from 1 2 3 4 5 6 7 8 9 show ?thesis by blast
qed

text \<open>
  As long as no subscription is removed twice, \<^verbatim>\<open>#listenerCount\<close> is the number of
  listeners registered on the channel.
\<close>

lemma length_filter_removed:
  "distinct (map fst xs) \<Longrightarrow> i \<in> fst ` set xs \<Longrightarrow>
   length (filter (\<lambda>r. fst r \<noteq> i) xs) + 1 = length xs"
proof (induction xs)
  case Nil
  then show ?case by simp
next
  case (Cons a xs)
  show ?case
  proof (cases "fst a = i")
    case True
    with Cons.prems have "i \<notin> fst ` set xs" by auto
    then have "filter (\<lambda>r. fst r \<noteq> i) xs = xs" by (auto simp: filter_id_conv)
    with True show ?thesis by simp
  next
    case False
    with Cons show ?thesis by auto
  qed
qed

lemma counted_addListener: "counted s \<Longrightarrow> counted (snd (addListener ev s))"
  by (auto simp: counted_def addListener_def Let_def startNativeSubscription_def)

lemma counted_remove:
  assumes "counted s" and "i \<in> fst ` set (rn_listeners s)"
  shows "counted (remove i s)"
proof -
  have d: "distinct (map fst (rn_listeners s))" using assms(1) by (simp add: counted_def)
  from length_filter_removed [OF d assms(2)]
  have "int (length (filter (\<lambda>r. fst r \<noteq> i) (rn_listeners s))) = int (length (rn_listeners s)) - 1"
    by simp
  with assms(1) d show ?thesis
    by (auto simp: counted_def remove_def Let_def stopNativeSubscription_def distinct_map_filter)
qed

lemma counted_run: "counted s \<Longrightarrow> proper s ops \<Longrightarrow> counted (foldl rn_step s ops)"
proof (induction ops arbitrary: s)
  case Nil
  then show ?case by simp
next
  case (Cons x ops)
  show ?case
  proof (cases x)
    case (AddListener ev)
    with Cons.prems Cons.IH [of "snd (addListener ev s)"] show ?thesis
      by (simp add: counted_addListener)
  next
    case (Remove i)
    with Cons.prems Cons.IH [of "remove i s"] show ?thesis
      by (simp add: counted_remove)
  qed
qed

lemma listenerCount_counts_listeners:
  "proper (rn_init :: 'n rn_state) ops \<Longrightarrow>
   rn_listenerCount (rn_run ops :: 'n rn_state) = int (length (rn_listeners (rn_run ops :: 'n rn_state)))"
proof -
  assume p: "proper (rn_init :: 'n rn_state) ops"
  have "counted (rn_init :: 'n rn_state)" by (simp add: counted_def rn_init_def)
  from counted_run [OF this p] show ?thesis by (simp add: counted_def rn_run_def)
qed

lemma proper_run_subscription:
  assumes "proper (rn_init :: 'n rn_state) ops"
  shows "rn_subscription (rn_run ops :: 'n rn_state) = (rn_listeners (rn_run ops :: 'n rn_state) \<noteq> [])"
proof -
  have "rn_subscription (rn_run ops :: 'n rn_state) = (1 \<le> rn_listenerCount (rn_run ops :: 'n rn_state))"
    by (rule rn_subscription_invariant)
  also have "\<dots> = (1 \<le> int (length (rn_listeners (rn_run ops :: 'n rn_state))))"
    using listenerCount_counts_listeners [OF assms] by simp
  also have "\<dots> = (rn_listeners (rn_run ops :: 'n rn_state) \<noteq> [])"
    by (cases "rn_listeners (rn_run ops :: 'n rn_state)") simp_all
  finally show ?thesis .
qed

text \<open>
  C5. The native subscription does not follow the number of registered listeners once
  \<^verbatim>\<open>remove()\<close> of one subscription object is called a second time, which the closure
  does not guard against. After two listeners are added and the first subscription is
  removed twice, the second listener is still registered, the field
  \<^verbatim>\<open>#listenerCount\<close> is 0, the native subscription has been stopped (one start, one
  stop), and a native event named after that listener's event calls no listener. After
  one listener is added, its subscription removed twice and a second listener added,
  the field is 0 again, the second listener is registered and the native subscription
  has not been started for it.
\<close>

theorem second_remove_stops_native_subscription:
  "rn_listeners (rn_run [AddListener ''bar'', AddListener ''foo'', Remove 0, Remove 0] :: int rn_state)
     = [(1, ''foo'')]
   \<and> rn_listenerCount (rn_run [AddListener ''bar'', AddListener ''foo'', Remove 0, Remove 0] :: int rn_state) = 0
   \<and> rn_subscription (rn_run [AddListener ''bar'', AddListener ''foo'', Remove 0] :: int rn_state)
   \<and> \<not> rn_subscription (rn_run [AddListener ''bar'', AddListener ''foo'', Remove 0, Remove 0] :: int rn_state)
   \<and> native_adds (rn_run [AddListener ''bar'', AddListener ''foo'', Remove 0, Remove 0] :: int rn_state) = 1
   \<and> native_removes (rn_run [AddListener ''bar'', AddListener ''foo'', Remove 0, Remove 0] :: int rn_state) = 1
   \<and> rn_invoked (native_event JSON_parse EVENT_CHANNEL ''{\"event\":\"foo\",\"payload\":[\"a\",\"b\"]}''
        (rn_run [AddListener ''bar'', AddListener ''foo'', Remove 0, Remove 0] :: int rn_state)) = []
   \<and> rn_listeners (rn_run [AddListener ''bar'', Remove 0, Remove 0, AddListener ''foo''] :: int rn_state)
     = [(1, ''foo'')]
   \<and> rn_listenerCount (rn_run [AddListener ''bar'', Remove 0, Remove 0, AddListener ''foo''] :: int rn_state) = 0
   \<and> \<not> rn_subscription (rn_run [AddListener ''bar'', Remove 0, Remove 0, AddListener ''foo''] :: int rn_state)
   \<and> native_adds (rn_run [AddListener ''bar'', Remove 0, Remove 0, AddListener ''foo''] :: int rn_state) = 1"
  by (simp add: rn_run_def rn_init_def addListener_def remove_def Let_def native_event_def
      startNativeSubscription_def stopNativeSubscription_def)

section \<open>Properties of the host\<close>

lemma host_run_snoc: "host_run (evs @ [e]) = host_step (host_run evs) e"
  by (simp add: host_run_def)

lemma host_step_ready:
  "nodeIsReadyForAppEvents (host_step s e) =
     (nodeIsReadyForAppEvents s \<or> e = FromNode SYSTEM_CHANNEL ''ready-for-app-events'')"
  by (cases e)
     (auto simp: sendMessageToApplication_def handleAppChannelMessage_def
        sendMessageBackToReact_def OnActivityEntersBackground_def
        OnActivityEntersForeground_def sendMessage_def)

lemma host_step_system:
  "\<not> nodeIsReadyForAppEvents s \<Longrightarrow> \<not> direct_system_send e \<Longrightarrow>
   filter (\<lambda>m. fst m = SYSTEM_CHANNEL) (toNode (host_step s e)) =
   filter (\<lambda>m. fst m = SYSTEM_CHANNEL) (toNode s)"
  by (cases e)
     (auto simp: sendMessageToApplication_def handleAppChannelMessage_def
        sendMessageBackToReact_def OnActivityEntersBackground_def
        OnActivityEntersForeground_def sendMessage_def)

lemma host_run_not_ready:
  "\<forall>e \<in> set evs. \<not> direct_system_send e \<Longrightarrow> \<not> nodeIsReadyForAppEvents (host_run evs) \<Longrightarrow>
   filter (\<lambda>m. fst m = SYSTEM_CHANNEL) (toNode (host_run evs)) = []"
proof (induction evs rule: rev_induct)
  case Nil
  show ?case by (simp add: host_run_def host_init_def)
next
  case (snoc e evs)
  from snoc.prems have nr: "\<not> nodeIsReadyForAppEvents (host_run evs)"
    by (simp add: host_run_snoc host_step_ready)
  from snoc.prems have nd: "\<not> direct_system_send e" and rest: "\<forall>e \<in> set evs. \<not> direct_system_send e"
    by simp_all
  from snoc.IH [OF rest nr] nr nd show ?case
    by (simp add: host_run_snoc host_step_system)
qed

text \<open>
  C8 (amended). The flag is set after a step exactly when it was set before or the step
  is the receipt of "ready-for-app-events" on the system channel, so once set it stays
  set along every run. While the flag is not set the two lifecycle handlers send
  nothing, and when it is set they send "pause" and "resume" on the system channel.
  The exposed \<^verbatim>\<open>sendMessage\<close> forwards its channel and text whatever the flag is. So
  a step taken while the flag is not set sends nothing on the system channel unless it
  is a call of \<^verbatim>\<open>sendMessage\<close> on that channel, and along every run without such a
  call, whenever a message has been sent on the system channel the flag is set.
\<close>

theorem readiness_gating:
  "nodeIsReadyForAppEvents (host_step s e) =
     (nodeIsReadyForAppEvents s \<or> e = FromNode SYSTEM_CHANNEL ''ready-for-app-events'')
   \<and> (nodeIsReadyForAppEvents (host_run evs) \<longrightarrow> nodeIsReadyForAppEvents (host_run (evs @ evs')))
   \<and> toNode (OnActivityEntersBackground s) =
       toNode s @ (if nodeIsReadyForAppEvents s then [(SYSTEM_CHANNEL, ''pause'')] else [])
   \<and> toNode (OnActivityEntersForeground s) =
       toNode s @ (if nodeIsReadyForAppEvents s then [(SYSTEM_CHANNEL, ''resume'')] else [])
   \<and> toNode (host_step s (JsSendMessage channel msg)) = toNode s @ [(channel, msg)]
   \<and> (\<not> nodeIsReadyForAppEvents s \<and> \<not> direct_system_send e \<longrightarrow>
        filter (\<lambda>m. fst m = SYSTEM_CHANNEL) (toNode (host_step s e)) =
        filter (\<lambda>m. fst m = SYSTEM_CHANNEL) (toNode s))
   \<and> ((\<forall>e \<in> set evs. \<not> direct_system_send e) \<and> (SYSTEM_CHANNEL, m) \<in> set (toNode (host_run evs))
        \<longrightarrow> nodeIsReadyForAppEvents (host_run evs))"
proof -
  have mono: "nodeIsReadyForAppEvents (host_run evs) \<Longrightarrow> nodeIsReadyForAppEvents (host_run (evs @ evs'))"
  proof (induction evs' rule: rev_induct)
    case Nil
    then show ?case by simp
  next
    case (snoc x xs)
    then show ?case
      using host_run_snoc [of "evs @ xs" x] by (simp add: host_step_ready)
  qed
  have gated: "\<forall>e \<in> set evs. \<not> direct_system_send e \<Longrightarrow>
               (SYSTEM_CHANNEL, m) \<in> set (toNode (host_run evs)) \<Longrightarrow>
               nodeIsReadyForAppEvents (host_run evs)"
  proof (rule ccontr)
    assume d: "\<forall>e \<in> set evs. \<not> direct_system_send e"
      and a: "(SYSTEM_CHANNEL, m) \<in> set (toNode (host_run evs))"
      and b: "\<not> nodeIsReadyForAppEvents (host_run evs)"
    from d b have "filter (\<lambda>m. fst m = SYSTEM_CHANNEL) (toNode (host_run evs)) = []"
      by (rule host_run_not_ready)
    with a show False by (auto simp: filter_empty_conv)
  qed
  have bg: "toNode (OnActivityEntersBackground s) =
       toNode s @ (if nodeIsReadyForAppEvents s then [(SYSTEM_CHANNEL, ''pause'')] else [])"
    by (simp add: OnActivityEntersBackground_def sendMessage_def)
  have fg: "toNode (OnActivityEntersForeground s) =
       toNode s @ (if nodeIsReadyForAppEvents s then [(SYSTEM_CHANNEL, ''resume'')] else [])"
    by (simp add: OnActivityEntersForeground_def sendMessage_def)
  have fw: "toNode (host_step s (JsSendMessage channel msg)) = toNode s @ [(channel, msg)]"
    by (simp add: sendMessage_def)
  from mono gated bg fg fw host_step_ready [of s e] host_step_system [of s e] show ?thesis
    by blast
qed

theorem readiness_gating_witness:
  "nodeIsReadyForAppEvents (host_run [EntersBackground, FromNode SYSTEM_CHANNEL ''ready-for-app-events''])
   \<and> nodeIsReadyForAppEvents
        (host_run ([EntersBackground, FromNode SYSTEM_CHANNEL ''ready-for-app-events'']
                   @ [EntersBackground, JsSendMessage EVENT_CHANNEL ''x'', EntersForeground]))
   \<and> \<not> nodeIsReadyForAppEvents host_init
   \<and> filter (\<lambda>m. fst m = SYSTEM_CHANNEL) (toNode (host_step host_init EntersBackground)) = []
   \<and> (SYSTEM_CHANNEL, ''pause'') \<in> set
        (toNode (host_run [EntersBackground, FromNode SYSTEM_CHANNEL ''ready-for-app-events'',
                           EntersBackground, JsSendMessage EVENT_CHANNEL ''x'', EntersForeground]))
   \<and> toNode (host_run [EntersBackground, FromNode SYSTEM_CHANNEL ''ready-for-app-events'',
                        EntersBackground, JsSendMessage EVENT_CHANNEL ''x'', EntersForeground])
       = [(SYSTEM_CHANNEL, ''pause''), (EVENT_CHANNEL, ''x''), (SYSTEM_CHANNEL, ''resume'')]"
proof -
  let ?evs = "[EntersBackground, FromNode SYSTEM_CHANNEL ''ready-for-app-events'']"
  let ?all = "[EntersBackground, FromNode SYSTEM_CHANNEL ''ready-for-app-events'',
               EntersBackground, JsSendMessage EVENT_CHANNEL ''x'', EntersForeground]"
  have a: "nodeIsReadyForAppEvents (host_run ?evs)"
    by (simp add: host_run_def host_init_def OnActivityEntersBackground_def
        sendMessageToApplication_def handleAppChannelMessage_def)
  have b: "\<not> nodeIsReadyForAppEvents host_init"
    by (simp add: host_init_def)
  have c: "toNode host_init = []"
    by (simp add: host_init_def)
  have d: "toNode (host_run ?all)
       = [(SYSTEM_CHANNEL, ''pause''), (EVENT_CHANNEL, ''x''), (SYSTEM_CHANNEL, ''resume'')]"
    by (simp add: host_run_def host_init_def OnActivityEntersBackground_def
        OnActivityEntersForeground_def sendMessage_def
        sendMessageToApplication_def handleAppChannelMessage_def)
  have e: "\<forall>e \<in> set ?all. \<not> direct_system_send e"
    by (simp add: SYSTEM_CHANNEL_def EVENT_CHANNEL_def)
  from a b c d e
    readiness_gating [of host_init EntersBackground ?evs
       "[EntersBackground, JsSendMessage EVENT_CHANNEL ''x'', EntersForeground]"]
    readiness_gating [of _ _ ?all _ _ _ "''pause''"]
  show ?thesis by simp
qed

text \<open>
  The claim as written fails: before the readiness message, a call of the exposed
  \<^verbatim>\<open>sendMessage("_SYSTEM_", "pause")\<close> sends "pause" on the system channel.
\<close>

theorem readiness_gating_counterexample:
  "\<not> nodeIsReadyForAppEvents host_init
   \<and> \<not> nodeIsReadyForAppEvents (host_run [JsSendMessage SYSTEM_CHANNEL ''pause''])
   \<and> toNode (host_run [JsSendMessage SYSTEM_CHANNEL ''pause'']) = [(SYSTEM_CHANNEL, ''pause'')]"
  by (simp add: host_run_def host_init_def sendMessage_def)

section \<open>Properties of the attachment cache\<close>

text \<open>
  A thread that is not attached and reads a count at the limit is refused, and the call
  changes neither counter nor the thread's cached environment.
\<close>

lemma refusal_has_no_side_effects:
  assumes "pc th = LoadCount" and "attached_thread_count s \<ge> MAX_ATTACHED_THREADS"
  shows "case thread_step th s of
           (th', count, peak) \<Rightarrow>
             result th' = Some AttachmentRefused \<and> pc th' = Idle
             \<and> count = attached_thread_count s \<and> peak = peak_attached_threads s
             \<and> tls_env th' = tls_env th \<and> tls_attached th' = tls_attached th
             \<and> jvm_attached th' = jvm_attached th"
  using assms by (simp add: thread_step_def returns_def Let_def)

text \<open>
  Forty calls by forty threads that are not attached, one call after the other: 32
  succeed, 8 are refused, and the count and the peak end at 32.
\<close>

lemma forty_calls_one_by_one:
  "attached_thread_count (pool_run (one_by_one 40) (pool_init 40)) = 32
   \<and> peak_attached_threads (pool_run (one_by_one 40) (pool_init 40)) = 32
   \<and> successes (pool_run (one_by_one 40) (pool_init 40)) = 32
   \<and> refusals (pool_run (one_by_one 40) (pool_init 40)) = 8"
  by code_simp

text \<open>
  C3. The same forty calls running together: every thread loads the count (0, below
  the limit 32) before any thread adds to it, so no call is refused, all forty threads
  are attached, and the count and the peak end at 40, above the limit.
\<close>

theorem forty_calls_racing:
  "MAX_ATTACHED_THREADS = 32
   \<and> attached_thread_count (pool_run (racing 40) (pool_init 40)) = 40
   \<and> peak_attached_threads (pool_run (racing 40) (pool_init 40)) = 40
   \<and> successes (pool_run (racing 40) (pool_init 40)) = 40
   \<and> refusals (pool_run (racing 40) (pool_init 40)) = 0
   \<and> list_all (\<lambda>th. pc th = Idle) (threads (pool_run (racing 40) (pool_init 40)))"
  by code_simp

section \<open>The parser reads back what the printer writes\<close>

lemma hex_value_hex_char: "d < 16 \<Longrightarrow> hex_value (hex_char d) = Some d"
  by (auto simp: hex_value_def hex_char_def Let_def of_char_of)

lemma zero_char: "hex_value CHR ''0'' = Some 0"
  by (simp add: hex_value_def)

lemma parse_chars_plain:
  "c \<noteq> CHR ''\"'' \<Longrightarrow> c \<noteq> CHR 0x5C \<Longrightarrow> \<not> (of_char c :: nat) < 32 \<Longrightarrow>
   parse_chars (c # cs) =
     (case parse_chars cs of None \<Rightarrow> None | Some (str, rest) \<Rightarrow> Some (c # str, rest))"
  by simp

lemma parse_chars_short:
  "e \<noteq> CHR ''u'' \<Longrightarrow> unescape e = Some x \<Longrightarrow>
   parse_chars (CHR 0x5C # e # r) =
     (case parse_chars r of None \<Rightarrow> None | Some (str, rest) \<Rightarrow> Some (x # str, rest))"
  by simp

lemma parse_chars_u:
  "hex_value a = Some h1 \<Longrightarrow> hex_value b = Some h2 \<Longrightarrow> hex_value c = Some h3 \<Longrightarrow>
   hex_value d = Some h4 \<Longrightarrow>
   parse_chars (CHR 0x5C # CHR ''u'' # a # b # c # d # r) =
     (case parse_chars r of
        None \<Rightarrow> None
      | Some (str, rest) \<Rightarrow> Some (utf8 (((h1 * 16 + h2) * 16 + h3) * 16 + h4) @ str, rest))"
  by simp


lemma unescape_simps:
  "unescape CHR ''\"'' = Some CHR ''\"''"
  "unescape CHR 0x5C = Some CHR 0x5C"
  "unescape CHR ''b'' = Some CHR 0x08"
  "unescape CHR ''t'' = Some CHR 0x09"
  "unescape CHR ''n'' = Some CHR 0x0A"
  "unescape CHR ''f'' = Some CHR 0x0C"
  "unescape CHR ''r'' = Some CHR 0x0D"
  by (simp_all add: unescape_def)

lemma control_utf8:
  assumes "(of_char c :: nat) < 32"
  shows "utf8 (((0 * 16 + 0) * 16 + of_char c div 16) * 16 + of_char c mod 16) = [c]"
proof -
  have "(of_char c :: nat) div 16 * 16 + of_char c mod 16 = of_char c" by simp
  then show ?thesis using assms by (simp add: utf8_def)
qed

lemma parse_chars_escape:
  "parse_chars (escape c @ r) =
     (case parse_chars r of None \<Rightarrow> None | Some (str, rest) \<Rightarrow> Some (c # str, rest))"
proof -
  consider (quote) "c = CHR ''\"''" | (bs) "c = CHR 0x5C" | (b) "c = CHR 0x08" | (t) "c = CHR 0x09"
    | (n) "c = CHR 0x0A" | (f) "c = CHR 0x0C" | (r) "c = CHR 0x0D"
    | (ctl) "c \<noteq> CHR ''\"''" "c \<noteq> CHR 0x5C" "c \<noteq> CHR 0x08" "c \<noteq> CHR 0x09" "c \<noteq> CHR 0x0A"
            "c \<noteq> CHR 0x0C" "c \<noteq> CHR 0x0D" "(of_char c :: nat) < 32"
    | (plain) "c \<noteq> CHR ''\"''" "c \<noteq> CHR 0x5C" "\<not> (of_char c :: nat) < 32"
    by blast
  then show ?thesis
  proof cases
    case quote
    show ?thesis unfolding quote
      by (simp add: escape_def parse_chars_short [OF _ unescape_simps(1)] del: parse_chars.simps)
  next
    case bs
    show ?thesis unfolding bs
      by (simp add: escape_def parse_chars_short [OF _ unescape_simps(2)] del: parse_chars.simps)
  next
    case b
    show ?thesis unfolding b
      by (simp add: escape_def parse_chars_short [OF _ unescape_simps(3)] del: parse_chars.simps)
  next
    case t
    show ?thesis unfolding t
      by (simp add: escape_def parse_chars_short [OF _ unescape_simps(4)] del: parse_chars.simps)
  next
    case n
    show ?thesis unfolding n
      by (simp add: escape_def parse_chars_short [OF _ unescape_simps(5)] del: parse_chars.simps)
  next
    case f
    show ?thesis unfolding f
      by (simp add: escape_def parse_chars_short [OF _ unescape_simps(6)] del: parse_chars.simps)
  next
    case r
    show ?thesis unfolding r
      by (simp add: escape_def parse_chars_short [OF _ unescape_simps(7)] del: parse_chars.simps)
  next
    case ctl
    have d: "(of_char c :: nat) div 16 < 16" "(of_char c :: nat) mod 16 < 16"
      using ctl(8) by simp_all
    have e: "escape c = [CHR 0x5C, CHR ''u'', CHR ''0'', CHR ''0'', hex_char (of_char c div 16),
                         hex_char (of_char c mod 16)]"
      using ctl by (simp add: escape_def)
    show ?thesis
      unfolding e
      using parse_chars_u [OF zero_char zero_char hex_value_hex_char [OF d(1)]
          hex_value_hex_char [OF d(2)], of r] control_utf8 [OF ctl(8)]
      by (simp del: parse_chars.simps split: option.splits)
  next
    case plain
    then have e: "escape c = [c]" by (auto simp: escape_def)
    show ?thesis unfolding e using parse_chars_plain [OF plain] by simp
  qed
qed

lemma parse_chars_quote: "parse_chars (concat (map escape s) @ CHR ''\"'' # rest) = Some (s, rest)"
proof (induction s)
  case Nil
  show ?case by simp
next
  case (Cons c s)
  then show ?case by (simp add: parse_chars_escape del: parse_chars.simps)
qed


lemma digit_char: "d < 10 \<Longrightarrow> is_digit (char_of (48 + d)) \<and> (of_char (char_of (48 + d)) :: nat) = 48 + d"
  by (simp add: is_digit_def of_char_of)

lemma decimal_digits: "c \<in> set (decimal n) \<Longrightarrow> is_digit c"
proof (induction n rule: decimal.induct)
  case (1 n)
  show ?case
  proof (cases "n < 10")
    case True
    with "1.prems" show ?thesis
      by (subst (asm) decimal.simps) (simp add: digit_char)
  next
    case False
    have "n mod 10 < 10" by simp
    from digit_char [OF this] "1.prems" "1.IH" [OF False] False show ?thesis
      by (subst (asm) decimal.simps) auto
  qed
qed

lemma decimal_nonempty: "decimal n \<noteq> []"
  by (subst decimal.simps) simp

lemma decimal_value_acc:
  "foldl (\<lambda>a c. 10 * a + (of_char c - 48)) a0 (decimal n) = a0 * 10 ^ length (decimal n) + n"
proof (induction n arbitrary: a0 rule: decimal.induct)
  case (1 n)
  show ?case
  proof (cases "n < 10")
    case True
    then show ?thesis
      by (subst (1 2) decimal.simps) (simp add: digit_char)
  next
    case False
    have m: "n mod 10 < 10" by simp
    have "foldl (\<lambda>a c. 10 * a + (of_char c - 48)) a0 (decimal n)
          = 10 * (a0 * 10 ^ length (decimal (n div 10)) + n div 10) + n mod 10"
      using False "1.IH" [OF False, of a0] digit_char [OF m]
      by (subst decimal.simps) simp
    also have "\<dots> = a0 * 10 ^ length (decimal n) + n"
      using False by (subst (2) decimal.simps) (simp add: algebra_simps)
    finally show ?thesis .
  qed
qed

lemma decimal_value: "foldl (\<lambda>a c. 10 * a + (of_char c - 48)) 0 (decimal n) = n"
  by (simp add: decimal_value_acc)

lemma decimal_hd_zero: "hd (decimal n) = CHR ''0'' \<Longrightarrow> length (decimal n) = 1"
proof (induction n rule: decimal.induct)
  case (1 n)
  show ?case
  proof (cases "n < 10")
    case True
    then show ?thesis by (subst decimal.simps) simp
  next
    case False
    then have pos: "n div 10 \<noteq> 0" by simp
    have "hd (decimal (n div 10)) = CHR ''0''"
      using "1.prems" False decimal_nonempty [of "n div 10"]
      by (subst (asm) decimal.simps) simp
    then have one: "length (decimal (n div 10)) = 1"
      using "1.IH" [OF False] by simp
    have "n div 10 < 10"
    proof (rule ccontr)
      assume "\<not> n div 10 < 10"
      then have "length (decimal (n div 10)) = length (decimal (n div 10 div 10)) + 1"
        by (subst decimal.simps) simp
      with one decimal_nonempty [of "n div 10 div 10"] show False by simp
    qed
    then have "decimal (n div 10) = [char_of (48 + n div 10)]"
      by (subst decimal.simps) simp
    with \<open>hd (decimal (n div 10)) = CHR ''0''\<close> have "char_of (48 + n div 10) = CHR ''0''" by simp
    then have "(of_char (char_of (48 + n div 10)) :: nat) = of_char CHR ''0''" by simp
    with \<open>n div 10 < 10\<close> have "n div 10 = 0" by (simp add: of_char_of)
    with pos show ?thesis by simp
  qed
qed

lemma takeWhile_decimal:
  "follows_number rest \<Longrightarrow> takeWhile is_digit (decimal n @ rest) = decimal n
     \<and> dropWhile is_digit (decimal n @ rest) = rest"
  using decimal_digits [of _ n]
  by (cases rest) (auto simp: follows_number_def takeWhile_append dropWhile_append
      takeWhile_eq_all_conv dropWhile_eq_self_iff)

lemma parse_number_text:
  assumes "follows_number rest"
  shows "parse_number (number_text i @ rest) = Some (i, rest)"
proof -
  have hdd: "is_digit (hd (decimal n))" for n
    using decimal_digits [of "hd (decimal n)" n] decimal_nonempty [of n] by simp
  have nm: "hd (decimal n) \<noteq> CHR ''-''" for n
    using hdd [of n] by (auto simp: is_digit_def)
  have lz: "\<not> (hd (decimal n) = CHR ''0'' \<and> 1 < length (decimal n))" for n
    using decimal_hd_zero [of n] by auto
  have rest: "\<not> (rest \<noteq> [] \<and> (hd rest = CHR ''.'' \<or> hd rest = CHR ''e'' \<or> hd rest = CHR ''E''))"
    using assms by (auto simp: follows_number_def)
  show ?thesis
  proof (cases "i < 0")
    case True
    then show ?thesis
      using takeWhile_decimal [OF assms, of "nat (- i)"] lz [of "nat (- i)"] rest
        decimal_nonempty [of "nat (- i)"]
      by (simp add: parse_number_def number_text_def Let_def decimal_value del: decimal.simps)
  next
    case False
    then show ?thesis
      using takeWhile_decimal [OF assms, of "nat i"] lz [of "nat i"] rest nm [of "nat i"]
        decimal_nonempty [of "nat i"]
      by (simp add: parse_number_def number_text_def Let_def decimal_value hd_append
          del: decimal.simps)
  qed
qed

lemma parse_value_string:
  "parse_value (Suc f) (CHR ''\"'' # cs) =
     (case parse_chars cs of None \<Rightarrow> None | Some (str, r) \<Rightarrow> Some (JStr str, r))"
  by simp

lemma parse_value_array:
  "parse_value (Suc f) (CHR ''['' # cs) =
     (case skip_ws cs of
               [] \<Rightarrow> None
             | d # r \<Rightarrow>
                 if d = CHR '']'' then Some (JArr [], r)
                 else (case parse_elements f (d # r) of
                         None \<Rightarrow> None
                       | Some (vs, r') \<Rightarrow> Some (JArr vs, r')))"
  by simp

lemma parse_value_object:
  "parse_value (Suc f) (CHR ''{'' # cs) =
     (case skip_ws cs of
               [] \<Rightarrow> None
             | d # r \<Rightarrow>
                 if d = CHR ''}'' then Some (JObj [], r)
                 else (case parse_members f (d # r) of
                         None \<Rightarrow> None
                       | Some (kvs, r') \<Rightarrow> Some (JObj kvs, r')))"
  by simp

lemma parse_value_literals:
  "parse_value (Suc f) (''null'' @ r) = Some (JNull, r)"
  "parse_value (Suc f) (''true'' @ r) = Some (JBool True, r)"
  "parse_value (Suc f) (''false'' @ r) = Some (JBool False, r)"
  by (simp_all add: literal_def)

lemma parse_value_number:
  assumes "c = CHR ''-'' \<or> is_digit c"
  shows "parse_value (Suc f) (c # cs) =
     (case parse_number (c # cs) of None \<Rightarrow> None | Some (n, r) \<Rightarrow> Some (JNum n, r))"
proof -
  from assms have "c \<noteq> CHR ''\"''" "c \<noteq> CHR ''[''" "c \<noteq> CHR ''{''" "c \<noteq> CHR ''n''"
    "c \<noteq> CHR ''t''" "c \<noteq> CHR ''f''"
    by (auto simp: is_digit_def)
  then show ?thesis by simp
qed

lemma digit_not_structural:
  "is_digit c \<Longrightarrow> \<not> is_ws c \<and> c \<noteq> CHR '']'' \<and> c \<noteq> CHR ''}'' \<and> c \<noteq> CHR '','' \<and> c \<noteq> CHR ''-''"
  by (auto simp: is_digit_def is_ws_def)

lemma stringify_value_first:
  "\<exists>c r. stringify_value v = c # r \<and> \<not> is_ws c \<and> c \<noteq> CHR '']'' \<and> c \<noteq> CHR ''}'' \<and> c \<noteq> CHR '',''"
proof (cases v)
  case (JNum n)
  obtain d ds where d: "decimal (nat \<bar>n\<bar>) = d # ds"
    using decimal_nonempty [of "nat \<bar>n\<bar>"] by (cases "decimal (nat \<bar>n\<bar>)") auto
  then have "is_digit d" using decimal_digits [of d "nat \<bar>n\<bar>"] by simp
  from digit_not_structural [OF this] d JNum show ?thesis
    by (cases "n < 0") (auto simp: number_text_def is_ws_def abs_if)
qed (auto simp: quote_def is_ws_def)

lemma skip_ws_stringify_value: "skip_ws (stringify_value v @ r) = stringify_value v @ r"
  using stringify_value_first [of v] by (auto simp: skip_ws_def)

lemma skip_ws_structural:
  "skip_ws (CHR '']'' # r) = CHR '']'' # r"
  "skip_ws (CHR ''}'' # r) = CHR ''}'' # r"
  "skip_ws (CHR '','' # r) = CHR '','' # r"
  "skip_ws (CHR '':'' # r) = CHR '':'' # r"
  "skip_ws (CHR ''\"'' # r) = CHR ''\"'' # r"
  by (simp_all add: skip_ws_def is_ws_def)

lemma follows_number_structural:
  "follows_number []"
  "follows_number (CHR '']'' # r)"
  "follows_number (CHR ''}'' # r)"
  "follows_number (CHR '','' # r)"
  by (simp_all add: follows_number_def is_digit_def)

lemma parse_elements_join:
  assumes "\<And>v fuel rest. v \<in> set vs \<Longrightarrow> length (stringify_value v) \<le> fuel \<Longrightarrow> follows_number rest
             \<Longrightarrow> parse_value fuel (stringify_value v @ rest) = Some (v, rest)"
    and "vs \<noteq> []"
    and "length (join '','' (map stringify_value vs)) < fuel"
  shows "parse_elements fuel (join '','' (map stringify_value vs) @ CHR '']'' # rest) = Some (vs, rest)"
  using assms
proof (induction vs arbitrary: fuel)
  case Nil
  then show ?case by simp
next
  case (Cons v vs)
  note IH = Cons.IH and elems = Cons.prems(1) and bound = Cons.prems(3)
  from bound obtain f where fuel: "fuel = Suc f" by (cases fuel) auto
  show ?case
  proof (cases vs)
    case Nil
    have len: "length (stringify_value v) \<le> f" using bound Nil fuel by simp
    have "parse_value f (stringify_value v @ CHR '']'' # rest) = Some (v, CHR '']'' # rest)"
      using elems [of v f "CHR '']'' # rest"] len by (simp add: follows_number_structural)
    then show ?thesis
      using Nil fuel by (simp add: skip_ws_structural)
  next
    case more: (Cons w ws)
    let ?tail = "join '','' (map stringify_value vs) @ CHR '']'' # rest"
    have tx: "join '','' (map stringify_value (v # vs)) @ CHR '']'' # rest
                 = stringify_value v @ CHR '','' # ?tail"
      using more by simp
    have lens: "length (join '','' (map stringify_value (v # vs)))
                  = length (stringify_value v) + 1 + length (join '','' (map stringify_value vs))"
      using more by simp
    have len: "length (stringify_value v) \<le> f" using bound fuel lens by simp
    have first: "parse_value f (stringify_value v @ CHR '','' # ?tail) = Some (v, CHR '','' # ?tail)"
      using elems [of v f "CHR '','' # ?tail"] len
      by (simp add: follows_number_structural)
    have ws: "skip_ws ?tail = ?tail"
    proof -
      have "?tail = stringify_value w @ (if ws = [] then [] else CHR '','' # join '','' (map stringify_value ws)) @ CHR '']'' # rest"
        using more by (cases ws) simp_all
      then show ?thesis using skip_ws_stringify_value [of w] by simp
    qed
    have "parse_elements f ?tail = Some (vs, rest)"
    proof (rule IH)
      show "vs \<noteq> []" using more by simp
      show "length (join '','' (map stringify_value vs)) < f"
        using bound fuel lens by simp
      show "\<And>v' fuel rest. v' \<in> set vs \<Longrightarrow> length (stringify_value v') \<le> fuel \<Longrightarrow> follows_number rest
             \<Longrightarrow> parse_value fuel (stringify_value v' @ rest) = Some (v', rest)"
        using elems by simp
    qed
    then show ?thesis
      unfolding tx fuel using first ws by (simp add: skip_ws_structural)
  qed
qed

lemma parse_members_step:
  assumes "parse_value f (stringify_value v @ r2) = Some (v, r2)"
  shows "parse_members (Suc f) (quote k @ '':'' @ stringify_value v @ r2) =
           (case skip_ws r2 of
              [] \<Rightarrow> None
            | d # r3 \<Rightarrow>
                if d = CHR ''}'' then Some ([(k, v)], r3)
                else if d = CHR '','' then
                  (case parse_members f (skip_ws r3) of
                     None \<Rightarrow> None
                   | Some (kvs, r4) \<Rightarrow> Some (add_member k v kvs, r4))
                else None)"
  using assms
  by (simp add: quote_def parse_chars_quote skip_ws_structural skip_ws_stringify_value
      del: parse_chars.simps)

lemma add_member_fresh: "k \<notin> fst ` set kvs \<Longrightarrow> add_member k v kvs = (k, v) # kvs"
proof -
  assume "k \<notin> fst ` set kvs"
  then have "map_of kvs k = None" by (simp add: map_of_eq_None_iff)
  then show ?thesis by (simp add: add_member_def)
qed

lemma parse_members_join:
  assumes "\<And>k v fuel rest. (k, v) \<in> set kvs \<Longrightarrow> length (stringify_value v) \<le> fuel
             \<Longrightarrow> follows_number rest
             \<Longrightarrow> parse_value fuel (stringify_value v @ rest) = Some (v, rest)"
    and "kvs \<noteq> []"
    and "distinct (map fst kvs)"
    and "length (join '','' (map (\<lambda>(k, v). quote k @ '':'' @ stringify_value v) kvs)) < fuel"
  shows "parse_members fuel
           (join '','' (map (\<lambda>(k, v). quote k @ '':'' @ stringify_value v) kvs) @ CHR ''}'' # rest)
         = Some (kvs, rest)"
  using assms
proof (induction kvs arbitrary: fuel)
  case Nil
  then show ?case by simp
next
  case (Cons kv kvs)
  note IH = Cons.IH and elems = Cons.prems(1) and keys = Cons.prems(3) and bound = Cons.prems(4)
  obtain k v where kv: "kv = (k, v)" by (cases kv)
  from bound obtain f where fuel: "fuel = Suc f" by (cases fuel) auto
  let ?m = "\<lambda>(k, v). quote k @ '':'' @ stringify_value v"
  have mlen: "length (stringify_value v) < length (?m kv)" by (simp add: kv quote_def)
  show ?case
  proof (cases kvs)
    case Nil
    have len: "length (stringify_value v) \<le> f" using bound Nil fuel mlen by simp
    have "parse_value f (stringify_value v @ CHR ''}'' # rest) = Some (v, CHR ''}'' # rest)"
      using elems [of k v f "CHR ''}'' # rest"] len kv by (simp add: follows_number_structural)
    from parse_members_step [OF this, of k] show ?thesis
      using Nil fuel kv by (simp add: skip_ws_structural)
  next
    case more: (Cons kw kws)
    let ?tail = "join '','' (map ?m kvs) @ CHR ''}'' # rest"
    have tx: "join '','' (map ?m (kv # kvs)) @ CHR ''}'' # rest
                = quote k @ '':'' @ stringify_value v @ CHR '','' # ?tail"
      using more kv by simp
    have lens: "length (join '','' (map ?m (kv # kvs)))
                  = length (?m kv) + 1 + length (join '','' (map ?m kvs))"
      using more by simp
    have len: "length (stringify_value v) \<le> f" using bound fuel lens mlen by simp
    have first: "parse_value f (stringify_value v @ CHR '','' # ?tail) = Some (v, CHR '','' # ?tail)"
      using elems [of k v f "CHR '','' # ?tail"] len kv by (simp add: follows_number_structural)
    have ws: "skip_ws ?tail = ?tail"
    proof -
      obtain k' v' where "kw = (k', v')" by (cases kw)
      then have "\<exists>r. ?tail = CHR ''\"'' # r" using more by (cases kws) (simp_all add: quote_def)
      then show ?thesis by (auto simp: skip_ws_structural)
    qed
    have rec: "parse_members f ?tail = Some (kvs, rest)"
    proof (rule IH)
      show "kvs \<noteq> []" using more by simp
      show "distinct (map fst kvs)" using keys by simp
      show "length (join '','' (map ?m kvs)) < f"
        using bound fuel lens by simp
      show "\<And>k v fuel rest. (k, v) \<in> set kvs \<Longrightarrow> length (stringify_value v) \<le> fuel
             \<Longrightarrow> follows_number rest
             \<Longrightarrow> parse_value fuel (stringify_value v @ rest) = Some (v, rest)"
      proof -
        fix k' v' fuel' rest'
        assume "(k', v') \<in> set kvs" and l: "length (stringify_value v') \<le> fuel'"
          and r: "follows_number rest'"
        then have "(k', v') \<in> set (kv # kvs)" by simp
        from elems [OF this l r]
        show "parse_value fuel' (stringify_value v' @ rest') = Some (v', rest')" .
      qed
    qed
    have fresh: "k \<notin> fst ` set kvs" using keys kv by simp
    from parse_members_step [OF first, of k] show ?thesis
      unfolding tx fuel using ws rec kv
      by (simp add: skip_ws_structural add_member_fresh [OF fresh])
  qed
qed

lemma parse_value_stringify_value:
  "wf_json v \<Longrightarrow> length (stringify_value v) \<le> fuel \<Longrightarrow> follows_number rest
     \<Longrightarrow> parse_value fuel (stringify_value v @ rest) = Some (v, rest)"
proof (induction v arbitrary: fuel rest)
  case JNull
  then obtain f where "fuel = Suc f" by (cases fuel) auto
  then show ?case using parse_value_literals(1) [of f rest] by simp
next
  case (JBool b)
  then obtain f where "fuel = Suc f" by (cases fuel; cases b) auto
  then show ?case
    using parse_value_literals(2) [of f rest] parse_value_literals(3) [of f rest]
    by (cases b) simp_all
next
  case (JNum n)
  have ne: "stringify_value (JNum n) \<noteq> []"
    using decimal_nonempty by (simp add: number_text_def)
  with JNum.prems obtain f where fuel: "fuel = Suc f" by (cases fuel) auto
  obtain c cs where cs: "number_text n = c # cs"
    using ne by (cases "number_text n") auto
  have "c = CHR ''-'' \<or> is_digit c"
  proof (cases "n < 0")
    case True
    with cs show ?thesis by (simp add: number_text_def)
  next
    case False
    with cs have "c \<in> set (decimal (nat n))" by (simp add: number_text_def)
    then show ?thesis by (simp add: decimal_digits)
  qed
  from parse_value_number [OF this, of f "cs @ rest"] parse_number_text [OF JNum.prems(3), of n]
  show ?case by (simp add: fuel cs)
next
  case (JStr s)
  then obtain f where "fuel = Suc f" by (cases fuel) (auto simp: quote_def)
  then show ?case
    using parse_value_string [of f "concat (map escape s) @ CHR ''\"'' # rest"]
    by (simp add: quote_def parse_chars_quote)
next
  case (JArr vs)
  from JArr.prems(2) obtain f where fuel: "fuel = Suc f" by (cases fuel) auto
  show ?case
  proof (cases "vs = []")
    case True
    then show ?thesis
      using parse_value_array [of f "CHR '']'' # rest"] by (simp add: fuel skip_ws_structural)
  next
    case False
    let ?body = "join '','' (map stringify_value vs)"
    have "parse_elements f (?body @ CHR '']'' # rest) = Some (vs, rest)"
    proof (rule parse_elements_join [OF _ False])
      show "length ?body < f" using JArr.prems(2) fuel by simp
      show "\<And>v fuel rest. v \<in> set vs \<Longrightarrow> length (stringify_value v) \<le> fuel \<Longrightarrow> follows_number rest
             \<Longrightarrow> parse_value fuel (stringify_value v @ rest) = Some (v, rest)"
        using JArr.IH JArr.prems(1) by simp
    qed
    moreover obtain w ws where "vs = w # ws" using False by (cases vs) auto
    then obtain d r where dr: "?body @ CHR '']'' # rest = d # r" "d \<noteq> CHR '']''" "skip_ws (d # r) = d # r"
      using stringify_value_first [of w] skip_ws_stringify_value [of w]
      by (cases ws) (auto simp: skip_ws_def)
    ultimately show ?thesis
      using parse_value_array [of f "?body @ CHR '']'' # rest"]
      by (simp add: fuel)
  qed
next
  case (JObj kvs)
  from JObj.prems(2) obtain f where fuel: "fuel = Suc f" by (cases fuel) auto
  let ?m = "\<lambda>(k, v). quote k @ '':'' @ stringify_value v"
  show ?case
  proof (cases "kvs = []")
    case True
    then show ?thesis
      using parse_value_object [of f "CHR ''}'' # rest"] by (simp add: fuel skip_ws_structural)
  next
    case False
    let ?body = "join '','' (map ?m kvs)"
    have "parse_members f (?body @ CHR ''}'' # rest) = Some (kvs, rest)"
    proof (rule parse_members_join [OF _ False])
      show "distinct (map fst kvs)" using JObj.prems(1) by simp
      show "length ?body < f" using JObj.prems(2) fuel by simp
      show "\<And>k v fuel rest. (k, v) \<in> set kvs \<Longrightarrow> length (stringify_value v) \<le> fuel
             \<Longrightarrow> follows_number rest
             \<Longrightarrow> parse_value fuel (stringify_value v @ rest) = Some (v, rest)"
      proof -
        fix k v fuel rest
        assume m: "(k, v) \<in> set kvs" and l: "length (stringify_value v) \<le> fuel"
          and r: "follows_number rest"
        have "wf_json v" using JObj.prems(1) m by auto
        from JObj.IH [OF m _ this l r] show "parse_value fuel (stringify_value v @ rest) = Some (v, rest)"
          by simp
      qed
    qed
    moreover obtain kw kws where "kvs = kw # kws" using False by (cases kvs) auto
    then obtain r where dr: "?body @ CHR ''}'' # rest = CHR ''\"'' # r"
      by (cases kw; cases kws) (auto simp: quote_def)
    ultimately show ?thesis
      using parse_value_object [of f "?body @ CHR ''}'' # rest"]
      by (simp add: fuel skip_ws_structural)
  qed
qed

lemma JSON_parse_stringify:
  assumes "wf_json v"
  shows "JSON_parse (stringify_value v) = Inr v"
  using parse_value_stringify_value [OF assms, of "2 * length (stringify_value v) + 1" "[]"]
    skip_ws_stringify_value [of v "[]"]
  by (simp add: JSON_parse_def follows_number_structural skip_ws_def)

section \<open>Properties of the codec\<close>

lemma stringify_foo:
  \<open>JSON_stringify (JObj [(''event'', JStr ''foo''), (''payload'', JArr [JStr ''a'', JStr ''b''])])
     = Inr ''{"event":"foo","payload":["a","b"]}''\<close>
  by code_simp






text \<open>
  The hypothesis of the round trip holds for the printer and the parser of the section
  above on every payload of their part of JSON: the values whose numbers are integers
  below \<open>2 ^ 53\<close> in absolute value and whose objects hold each key once.
\<close>

lemma round_trip_on_integers:
  assumes "e \<noteq> []" and "\<forall>v \<in> set pl. wf_json v"
  shows "(case serialize JSON_stringify (JStr e) pl of
            Inl err \<Rightarrow> Inl err
          | Inr wire \<Rightarrow> deserialize JSON_parse (JStr wire))
         = Inr \<lparr>event = e, payload = pl\<rparr>"
proof -
  let ?envelope = "JObj [(''event'', JStr e), (''payload'', JArr pl)]"
  have "wf_json ?envelope" using assms(2) by simp
  then have rt: "JSON_parse (stringify_value ?envelope) = Inr ?envelope"
    by (rule JSON_parse_stringify)
  show ?thesis
    using assms(1) rt by (simp add: serialize_def deserialize_def JSON_stringify_def)
qed

text \<open>
  C10. Whenever the text parses to an object in which \<^verbatim>\<open>event\<close> is a string and
  \<^verbatim>\<open>payload\<close> is an array, whatever other properties the object has,
  \<open>deserialize\<close> succeeds and returns the event and the payload and nothing else.
\<close>

theorem decode_leniency:
  assumes "parse text = Inr (JObj kvs)"
    and "map_of kvs ''event'' = Some (JStr e)"
    and "map_of kvs ''payload'' = Some (JArr p)"
  shows "deserialize parse (JStr text) = Inr \<lparr>event = e, payload = p\<rparr>"
proof -
  from assms(2) have "(''event'', JStr e) \<in> set kvs" by (rule map_of_SomeD)
  then have ev: "''event'' \<in> fst ` set kvs" by force
  from assms(3) have "(''payload'', JArr p) \<in> set kvs" by (rule map_of_SomeD)
  then have pl: "''payload'' \<in> fst ` set kvs" by force
  from assms ev pl show ?thesis by (simp add: deserialize_def)
qed

lemma parse_extra:
  \<open>JSON_parse ''{"id":7,"event":"x","meta":{"a":null},"payload":[1,"y"],"extra":true}''
     = Inr (JObj [(''id'', JNum 7), (''event'', JStr ''x''), (''meta'', JObj [(''a'', JNull)]),
                  (''payload'', JArr [JNum 1, JStr ''y'']), (''extra'', JBool True)])\<close>
  by code_simp

theorem decode_leniency_witness:
  \<open>deserialize JSON_parse (JStr ''{"id":7,"event":"x","meta":{"a":null},"payload":[1,"y"],"extra":true}'')
     = Inr \<lparr>event = ''x'', payload = [JNum 1, JStr ''y'']\<rparr>\<close>
  using decode_leniency [of JSON_parse _ _ "''x''" "[JNum 1, JStr ''y'']"] parse_extra
  by simp


text \<open>
  The failures of the codec on the inputs that select each of them, and the text that
  \<^verbatim>\<open>post("foo", "a", "b")\<close> sends.
\<close>

lemma codec_examples:
  \<open>serialize JSON_stringify (JStr '''') [] = Inl EmptyEventName\<close>
  \<open>serialize JSON_stringify (JNum 123) [] = Inl EmptyEventName\<close>
  \<open>deserialize JSON_parse (JNum 123) = Inl NotAString\<close>
  \<open>deserialize JSON_parse (JStr ''not json'') = Inl (ParseFailure SyntaxError)\<close>
  \<open>deserialize JSON_parse (JStr ''null'') = Inl NotAnObject\<close>
  \<open>deserialize JSON_parse (JStr ''"x"'') = Inl NotAnObject\<close>
  \<open>deserialize JSON_parse (JStr ''[]'') = Inl MissingFields\<close>
  \<open>deserialize JSON_parse (JStr ''{"event":"x"}'') = Inl MissingFields\<close>
  \<open>deserialize JSON_parse (JStr ''{"payload":[]}'') = Inl MissingFields\<close>
  \<open>deserialize JSON_parse (JStr ''{"event":1,"payload":[]}'') = Inl EventNotString\<close>
  \<open>deserialize JSON_parse (JStr ''{"event":"x","payload":1}'') = Inl PayloadNotArray\<close>
  \<open>post JSON_stringify (JStr ''foo'') [JStr ''a'', JStr ''b''] rn_init
     = Inr (rn_init\<lparr>rn_sent := [(EVENT_CHANNEL, ''{"event":"foo","payload":["a","b"]}'')]\<rparr>)\<close>
  by code_simp+

section \<open>Decode failures on the two sides\<close>

text \<open>An exception of \<open>serialize\<close> leaves \<^verbatim>\<open>post\<close>; a decode failure is caught on the
  React Native side, and leaves \<^verbatim>\<open>bridgeListener\<close> on the embedded side.\<close>

lemma post_raises:
  "serialize stringify ev msg = Inl err \<Longrightarrow> post stringify ev msg s = Inl err"
  by (simp add: post_def)

lemma rn_decode_failure_is_caught:
  "deserialize parse (JStr data) = Inl err \<Longrightarrow>
   rn_processData parse data s = s\<lparr>rn_warnings := rn_warnings s @ [err]\<rparr>"
  by (simp add: rn_processData_def)

lemma node_decode_failure_propagates:
  "channels s c = Some ch \<Longrightarrow> cls ch = EventChannel \<Longrightarrow>
   deserialize parse (JStr data) = Inl err \<Longrightarrow> bridgeListener parse c data s = Inl err"
  by (simp add: bridgeListener_def processData_def)

lemma parse_not_json: \<open>JSON_parse ''not json'' = Inl SyntaxError\<close>
  by code_simp

lemma node_init_event_channel:
  "channels (node_init :: 'n node_state) EVENT_CHANNEL =
     Some \<lparr>cls = EventChannel, name = EVENT_CHANNEL, listeners = []\<rparr>"
  by (simp add: node_init_def registerChannel_def)

text \<open>
  C6. The text "not json" arrives on the event channel. On the embedded side the
  error of \<open>deserialize\<close> leaves \<^verbatim>\<open>processData\<close> and \<^verbatim>\<open>bridgeListener\<close> and
  reaches the native caller. On the React Native side the same text is caught: the
  error is logged as a warning and no listener is called.
\<close>

theorem decode_failure_leaves_bridgeListener:
  \<open>bridgeListener JSON_parse EVENT_CHANNEL ''not json'' node_init = Inl (ParseFailure SyntaxError)
   \<and> rn_warnings (native_event JSON_parse EVENT_CHANNEL ''not json'' (snd (addListener ''message'' rn_init)))
       = [ParseFailure SyntaxError]
   \<and> rn_invoked (native_event JSON_parse EVENT_CHANNEL ''not json'' (snd (addListener ''message'' rn_init)))
       = []\<close>
proof -
  have d: "deserialize JSON_parse (JStr ''not json'') = Inl (ParseFailure SyntaxError)"
    by (simp add: deserialize_def parse_not_json)
  have 1: "bridgeListener JSON_parse EVENT_CHANNEL ''not json'' node_init = Inl (ParseFailure SyntaxError)"
    using node_decode_failure_propagates [OF node_init_event_channel _ d] by simp
  have 2: "native_event JSON_parse EVENT_CHANNEL ''not json'' (snd (addListener ''message'' rn_init))
           = (snd (addListener ''message'' rn_init))\<lparr>rn_warnings := [ParseFailure SyntaxError]\<rparr>"
    by (simp add: native_event_def rn_decode_failure_is_caught [OF d] addListener_def Let_def
        rn_init_def startNativeSubscription_def)
  from 1 2 show ?thesis
    by (simp add: addListener_def Let_def rn_init_def startNativeSubscription_def)
qed

section \<open>When the listeners are called\<close>

lemma run_task_channels [simp]: "channels (run_task t s) = channels s"
  by (cases t) (simp_all add: pause_closure_def split: option.splits prod.splits)








end
